theory Spec2Isabelle
  imports Main "HOL-Library.AList"
begin

section \<open>Data model of the view syncer\<close>

text \<open>
  The development follows \<^verbatim>\<open>ViewSyncerService\<close> (view-syncer.ts). Objects of the
  service become records, the private fields of the service become one record that every
  operation takes and returns, and every \<^verbatim>\<open>throw\<close>, failed \<^verbatim>\<open>assert\<close> and rejected
  promise becomes an \<open>error\<close> value. The service runs every operation inside its lock, so
  operations are atomic transitions of the service record.
\<close>

type_synonym clientID = string
type_synonym queryHash = string

text \<open>Column values of a replicated row, and a row as a JavaScript object: its own
  properties in enumeration order.\<close>

datatype jsvalue = JNull | JBool bool | JNum int | JStr string

type_synonym Row = "(string \<times> jsvalue) list"
type_synonym RowKey = "(string \<times> jsvalue) list"

text \<open>The query AST is an opaque payload for the service.\<close>

datatype AST = AST (ast_table: string) (ast_select: "string list")

record Version =
  stateVersion :: string
  minorVersion :: nat

record RowID =
  schema :: string
  table :: string
  rowKey :: RowKey

record RowChange =
  queryHash :: queryHash
  rc_table :: string
  rc_rowKey :: RowKey
  row :: "Row option"

record RowUpdate =
  version :: "string option"
  contents :: "Row option"
  refCounts :: "(queryHash \<times> int) list"

record QueryRecord =
  q_id :: queryHash
  ast :: AST
  desiredBy :: "(clientID \<times> Version) list"
  internal :: bool
  transformationHash :: "string option"

record ClientRecord =
  c_id :: clientID
  c_patchVersion :: Version
  desiredQueryIDs :: "queryHash list"

text \<open>A CVR snapshot. \<open>queries\<close> lists the entries of the \<^verbatim>\<open>queries\<close> object in the order
  of \<^verbatim>\<open>Object.keys\<close>.\<close>

record CVRSnapshot =
  cvr_id :: string
  cvr_version :: Version
  cvr_clients :: "(clientID \<times> ClientRecord) list"
  queries :: "(queryHash \<times> QueryRecord) list"

text \<open>Patches handed to a poker. \<^verbatim>\<open>#catchupClients\<close> wraps its row patches together
  with the version they lead to; the other patches are passed on as the updater or the
  store returned them.\<close>

datatype Patch =
    PutRow RowID Row
  | DelRow RowID
  | PutQuery queryHash AST
  | DelQuery queryHash
  | PutClient clientID
  | DelClient clientID
  | PutDesired clientID queryHash AST
  | DelDesired clientID queryHash

datatype PokePatch = Plain Patch | PatchToVersion Patch Version

text \<open>A row patch record streamed by \<^verbatim>\<open>catchupRowPatches\<close>.\<close>

record RowPatchRecord =
  rp_schema :: string
  rp_table :: string
  rp_rowKey :: RowKey
  rp_patchVersion :: string
  rp_refCounts :: "(queryHash \<times> int) list option"

datatype error =
    AssertionFailed
  | InvalidRowVersion Row
  | MissingRow string RowKey
  | UndefinedQuery queryHash
  | BadRequest
  | BadQuery
  | Internal
  | Unavailable
  | Fatal

text \<open>A client handler is an object: \<open>hid\<close> is its identity, allocated when the
  handler is constructed, and \<^verbatim>\<open>===\<close> on handlers compares identities.\<close>

record ClientHandler =
  hid :: nat
  h_clientID :: clientID
  wsID :: string
  baseCookie :: "string option"

record SyncContext =
  ctx_clientID :: clientID
  ctx_wsID :: string
  ctx_baseCookie :: "string option"

datatype QueriesPatchOp = PutOp queryHash AST | DelOp queryHash | ClearOp

text \<open>The calls the service makes on its collaborators, in the order it makes them.\<close>

datatype event =
    StartPoke nat Version
  | AddPatch nat PokePatch
  | EndPoke nat
  | CloseClient nat
  | FailClient nat error
  | PipelineInit
  | PipelineDestroy
  | AddQuery queryHash AST
  | RemoveQuery queryHash
  | Advance
  | TrackQueries "(queryHash \<times> string) list" "queryHash list"
  | Received "(RowID \<times> RowUpdate) list"
  | DeleteUnreferencedRows
  | Flushed CVRSnapshot
  | FlushFailed error
  | CatchupFrom Version "queryHash list"
  | CancelVersionChanges

text \<open>
  The collaborators whose code is not part of the service are parameters: the pipeline
  driver over its own state \<open>'p\<close>, and the CVR store with the updaters built on it over
  the state \<open>'st\<close>. A lazy sequence (an iterable or an async generator) is the list of
  the items it yields, followed by the error it throws, if any.
\<close>

record ('p, 'st) env =
  cs_load :: "'st \<Rightarrow> error + CVRSnapshot"
  cs_catchupRowPatches ::
    "Version \<Rightarrow> CVRSnapshot \<Rightarrow> queryHash list \<Rightarrow> 'st \<Rightarrow> RowPatchRecord list list \<times> error option"
  cs_catchupConfigPatches :: "Version \<Rightarrow> CVRSnapshot \<Rightarrow> 'st \<Rightarrow> error + Patch list"
  cu_new :: "CVRSnapshot \<Rightarrow> 'st \<Rightarrow> 'st"
  cu_putDesiredQueries :: "clientID \<Rightarrow> queryHash \<Rightarrow> AST \<Rightarrow> 'st \<Rightarrow> (queryHash \<times> AST) list \<times> 'st"
  cu_deleteDesiredQueries :: "clientID \<Rightarrow> queryHash \<Rightarrow> 'st \<Rightarrow> 'st"
  cu_clearDesiredQueries :: "clientID \<Rightarrow> 'st \<Rightarrow> 'st"
  cu_flush :: "'st \<Rightarrow> (error + CVRSnapshot) \<times> 'st"
  qu_new :: "CVRSnapshot \<Rightarrow> string \<Rightarrow> 'st \<Rightarrow> 'st"
  qu_updatedVersion :: "'st \<Rightarrow> Version"
  qu_trackQueries :: "(queryHash \<times> string) list \<Rightarrow> queryHash list \<Rightarrow> 'st \<Rightarrow> (Version \<times> Patch list) \<times> 'st"
  qu_received :: "(RowID \<times> RowUpdate) list \<Rightarrow> 'st \<Rightarrow> (error + Patch list) \<times> 'st"
  qu_deleteUnreferencedRows :: "'st \<Rightarrow> (error + Patch list) \<times> 'st"
  qu_flush :: "'st \<Rightarrow> (error + CVRSnapshot) \<times> 'st"
  pl_initialized :: "'p \<Rightarrow> bool"
  pl_init :: "'p \<Rightarrow> 'p"
  pl_destroy :: "'p \<Rightarrow> 'p"
  pl_currentVersion :: "'p \<Rightarrow> string"
  pl_addQuery :: "queryHash \<Rightarrow> AST \<Rightarrow> 'p \<Rightarrow> (RowChange list \<times> error option) \<times> 'p"
  pl_removeQuery :: "queryHash \<Rightarrow> 'p \<Rightarrow> 'p"
  pl_addedQueries :: "'p \<Rightarrow> queryHash list"
  pl_advance :: "'p \<Rightarrow> (error + (string \<times> nat \<times> (RowChange list \<times> error option))) \<times> 'p"
  pl_getRow :: "string \<Rightarrow> RowKey \<Rightarrow> 'p \<Rightarrow> Row option"
  ch_version :: "ClientHandler \<Rightarrow> event list \<Rightarrow> Version"
  versionFromString :: "string \<Rightarrow> Version"

text \<open>The private fields of the service. \<open>cvr\<close> is \<^verbatim>\<open>#cvr\<close> (\<open>None\<close> before the load),
  \<open>clients\<close> is the \<^verbatim>\<open>#clients\<close> map in insertion order, \<open>idleToken\<close> is the identity of
  the current idle token, \<open>timers\<close> are the pending timeouts, each named by the token it
  checks, and \<open>trace\<close> is the log of the calls made so far.\<close>

record ('p, 'st) service =
  cvr :: "CVRSnapshot option"
  clients :: "(clientID \<times> ClientHandler) list"
  idleToken :: "nat option"
  timers :: "nat list"
  nextObj :: nat
  versionChangesActive :: bool
  pipelines :: 'p
  cvrStore :: 'st
  trace :: "event list"

definition CURSOR_PAGE_SIZE :: nat where
  "CURSOR_PAGE_SIZE = 10000"

definition ZERO_VERSION_COLUMN_NAME :: string where
  "ZERO_VERSION_COLUMN_NAME = ''_0_version''"

definition DEFAULT_KEEPALIVE_MS :: nat where
  "DEFAULT_KEEPALIVE_MS = 30000"

section \<open>Staging row changes\<close>

text \<open>The body of the loop of \<^verbatim>\<open>#processChanges\<close> up to the page check: look the
  row up in the batch map (inserting an empty update), count the change into
  \<^verbatim>\<open>refCounts[queryHash]\<close>, and take version and contents from the row when the staged
  update has no version yet.\<close>

definition emptyUpdate :: RowUpdate where
  "emptyUpdate = \<lparr>version = None, contents = None, refCounts = []\<rparr>"

definition changeRowID :: "RowChange \<Rightarrow> RowID" where
  "changeRowID c = \<lparr>schema = '''', table = rc_table c, rowKey = rc_rowKey c\<rparr>"

definition refCount :: "(queryHash \<times> int) list \<Rightarrow> queryHash \<Rightarrow> int" where
  "refCount rc q = (case map_of rc q of None \<Rightarrow> 0 | Some n \<Rightarrow> n)"

definition bumpRefCount :: "queryHash \<Rightarrow> bool \<Rightarrow> RowUpdate \<Rightarrow> RowUpdate" where
  "bumpRefCount q present u =
     u\<lparr>refCounts := AList.update q (refCount (refCounts u) q + (if present then 1 else - 1)) (refCounts u)\<rparr>"

definition noVersion :: "RowUpdate \<Rightarrow> bool" where
  "noVersion u = (case version u of None \<Rightarrow> True | Some v \<Rightarrow> v = [])"

definition parseRow :: "Row \<Rightarrow> error + (string \<times> Row)" where
  "parseRow r =
     (case map_of r ZERO_VERSION_COLUMN_NAME of
        Some (JStr v) \<Rightarrow>
          if v = [] then Inl (InvalidRowVersion r)
          else Inr (v, AList.delete ZERO_VERSION_COLUMN_NAME r)
      | _ \<Rightarrow> Inl (InvalidRowVersion r))"

definition stageChange ::
  "(RowID \<times> RowUpdate) list \<Rightarrow> RowChange \<Rightarrow> error + (RowID \<times> RowUpdate) list" where
  "stageChange rows c =
     (let rowID = changeRowID c;
          rows1 = (case map_of rows rowID of None \<Rightarrow> AList.update rowID emptyUpdate rows | Some _ \<Rightarrow> rows);
          parsedRow = (case map_of rows rowID of None \<Rightarrow> emptyUpdate | Some u \<Rightarrow> u);
          parsedRow1 = bumpRefCount (queryHash c) (row c \<noteq> None) parsedRow
      in case row c of
           None \<Rightarrow> Inr (AList.update rowID parsedRow1 rows1)
         | Some r \<Rightarrow>
             if noVersion parsedRow1 then
               (case parseRow r of
                  Inl e \<Rightarrow> Inl e
                | Inr (v, cont) \<Rightarrow>
                    Inr (AList.update rowID (parsedRow1\<lparr>version := Some v, contents := Some cont\<rparr>) rows1))
             else Inr (AList.update rowID parsedRow1 rows1))"


section \<open>Versions\<close>

text \<open>Modelled from the spec: \<^verbatim>\<open>cmpVersions\<close> (schema/types.ts) is not part of the
  sources at hand. The spec gives the total order: compare \<open>stateVersion\<close> as strings,
  then \<open>minorVersion\<close>. Strings compare as in JavaScript, code unit by code unit.\<close>

fun strLess :: "string \<Rightarrow> string \<Rightarrow> bool" where
  "strLess [] [] = False"
| "strLess [] (y # ys) = True"
| "strLess (x # xs) [] = False"
| "strLess (x # xs) (y # ys) =
     ((of_char x :: nat) < of_char y \<or> (x = y \<and> strLess xs ys))"

definition cmpVersions :: "Version \<Rightarrow> Version \<Rightarrow> int" where
  "cmpVersions a b =
     (if strLess (stateVersion a) (stateVersion b) then - 1
      else if strLess (stateVersion b) (stateVersion a) then 1
      else int (minorVersion a) - int (minorVersion b))"

text \<open>Modelled from the spec: \<^verbatim>\<open>difference\<close> (shared/set-utils.ts) is not part of the
  sources at hand; \<open>difference a b\<close> is \<open>a \ b\<close>, in the iteration order of \<open>a\<close>.\<close>

definition difference :: "'a list \<Rightarrow> 'a list \<Rightarrow> 'a list" where
  "difference a b = filter (\<lambda>x. x \<notin> set b) a"

section \<open>Pokes\<close>

definition emit :: "event list \<Rightarrow> ('p, 'st) service \<Rightarrow> ('p, 'st) service" where
  "emit evs s = s\<lparr>trace := trace s @ evs\<rparr>"

text \<open>\<^verbatim>\<open>[...this.#clients.values()].map(c => c.startPoke(v))\<close>: one poker per registered
  handler, named by its handler.\<close>

definition startPokes :: "Version \<Rightarrow> ('p, 'st) service \<Rightarrow> nat list \<times> ('p, 'st) service" where
  "startPokes v s =
     (let hs = map (\<lambda>(_, c). hid c) (clients s)
      in (hs, emit (map (\<lambda>h. StartPoke h v) hs) s))"

text \<open>\<^verbatim>\<open>for (const patch of patches) pokers.forEach(poker => poker.addPatch(patch))\<close>\<close>

definition addPatches :: "nat list \<Rightarrow> PokePatch list \<Rightarrow> ('p, 'st) service \<Rightarrow> ('p, 'st) service" where
  "addPatches pokers ps s = emit (concat (map (\<lambda>p. map (\<lambda>h. AddPatch h p) pokers) ps)) s"

definition endPokes :: "nat list \<Rightarrow> ('p, 'st) service \<Rightarrow> ('p, 'st) service" where
  "endPokes pokers s = emit (map EndPoke pokers) s"

section \<open>Processing row changes in pages\<close>

definition processBatch ::
  "('p, 'st) env \<Rightarrow> nat list \<Rightarrow> (RowID \<times> RowUpdate) list \<Rightarrow> ('p, 'st) service
     \<Rightarrow> error option \<times> ('p, 'st) service" where
  "processBatch env pokers rows s =
     (case qu_received env rows (cvrStore s) of
        (Inl e, st) \<Rightarrow> (Some e, emit [Received rows] (s\<lparr>cvrStore := st\<rparr>))
      | (Inr ps, st) \<Rightarrow>
          (None, addPatches pokers (map Plain ps) (emit [Received rows] (s\<lparr>cvrStore := st\<rparr>))))"

fun stageLoop ::
  "('p, 'st) env \<Rightarrow> nat list \<Rightarrow> RowChange list \<Rightarrow> (RowID \<times> RowUpdate) list \<Rightarrow> ('p, 'st) service
     \<Rightarrow> (error + (RowID \<times> RowUpdate) list) \<times> ('p, 'st) service" where
  "stageLoop env pokers [] rows s = (Inr rows, s)"
| "stageLoop env pokers (c # cs) rows s =
     (case stageChange rows c of
        Inl e \<Rightarrow> (Inl e, s)
      | Inr rows' \<Rightarrow>
          if length rows' mod CURSOR_PAGE_SIZE = 0 then
            (case processBatch env pokers rows' s of
               (Some e, s') \<Rightarrow> (Inl e, s')
             | (None, s') \<Rightarrow> stageLoop env pokers cs [] s')
          else stageLoop env pokers cs rows' s)"

definition processChanges ::
  "('p, 'st) env \<Rightarrow> RowChange list \<times> error option \<Rightarrow> nat list \<Rightarrow> ('p, 'st) service
     \<Rightarrow> error option \<times> ('p, 'st) service" where
  "processChanges env changes pokers s =
     (case stageLoop env pokers (fst changes) [] s of
        (Inl e, s') \<Rightarrow> (Some e, s')
      | (Inr rows, s') \<Rightarrow>
          (case snd changes of
             Some e \<Rightarrow> (Some e, s')
           | None \<Rightarrow> if rows \<noteq> [] then processBatch env pokers rows s' else (None, s')))"

section \<open>Catching clients up\<close>

fun rowPatchLoop ::
  "('p, 'st) env \<Rightarrow> nat list \<Rightarrow> RowPatchRecord list \<Rightarrow> ('p, 'st) service
     \<Rightarrow> error option \<times> ('p, 'st) service" where
  "rowPatchLoop env pokers [] s = (None, s)"
| "rowPatchLoop env pokers (r # rs) s =
     (let toVersion = versionFromString env (rp_patchVersion r);
          rid = \<lparr>schema = rp_schema r, table = rp_table r, rowKey = rp_rowKey r\<rparr>
      in case rp_refCounts r of
           None \<Rightarrow>
             rowPatchLoop env pokers rs (addPatches pokers [PatchToVersion (DelRow rid) toVersion] s)
         | Some _ \<Rightarrow>
             (case pl_getRow env (rp_table r) (rp_rowKey r) (pipelines s) of
                None \<Rightarrow> (Some (MissingRow (rp_table r) (rp_rowKey r)), s)
              | Some cont \<Rightarrow>
                  rowPatchLoop env pokers rs
                    (addPatches pokers [PatchToVersion (PutRow rid cont) toVersion] s)))"

definition catchupFromVersion :: "('p, 'st) env \<Rightarrow> CVRSnapshot \<Rightarrow> ('p, 'st) service \<Rightarrow> Version" where
  "catchupFromVersion env c s =
     foldl (\<lambda>a b. if cmpVersions a b < 0 then a else b) (cvr_version c)
       (map (\<lambda>(_, h). ch_version env h (trace s)) (clients s))"

definition catchupClients ::
  "('p, 'st) env \<Rightarrow> CVRSnapshot \<Rightarrow> queryHash list \<Rightarrow> nat list option \<Rightarrow> ('p, 'st) service
     \<Rightarrow> error option \<times> ('p, 'st) service" where
  "catchupClients env c excludeQueryHashes usePokers s =
     (let (pokers, s1) = (case usePokers of Some ps \<Rightarrow> (ps, s) | None \<Rightarrow> startPokes (cvr_version c) s);
          catchupFrom = catchupFromVersion env c s1;
          s2 = emit [CatchupFrom catchupFrom excludeQueryHashes] s1;
          rowPatches = cs_catchupRowPatches env catchupFrom c excludeQueryHashes (cvrStore s2)
      in case cs_catchupConfigPatches env catchupFrom c (cvrStore s2) of
           Inl e \<Rightarrow> (Some e, s2)
         | Inr configPatches \<Rightarrow>
             (case rowPatchLoop env pokers (concat (fst rowPatches))
                     (addPatches pokers (map Plain configPatches) s2) of
                (Some e, s3) \<Rightarrow> (Some e, s3)
              | (None, s3) \<Rightarrow>
                  (case snd rowPatches of
                     Some e \<Rightarrow> (Some e, s3)
                   | None \<Rightarrow> (None, if usePokers = None then endPokes pokers s3 else s3))))"


section \<open>Adding and removing queries\<close>

fun removeLoop :: "('p, 'st) env \<Rightarrow> queryHash list \<Rightarrow> ('p, 'st) service \<Rightarrow> ('p, 'st) service" where
  "removeLoop env [] s = s"
| "removeLoop env (h # hs) s =
     removeLoop env hs (emit [RemoveQuery h] (s\<lparr>pipelines := pl_removeQuery env h (pipelines s)\<rparr>))"

text \<open>The loop over \<^verbatim>\<open>addQueries\<close>. Reading \<^verbatim>\<open>ast\<close> off a query the snapshot does
  not hold throws.\<close>

fun addLoop ::
  "('p, 'st) env \<Rightarrow> CVRSnapshot \<Rightarrow> nat list \<Rightarrow> queryHash list \<Rightarrow> ('p, 'st) service
     \<Rightarrow> error option \<times> ('p, 'st) service" where
  "addLoop env c pokers [] s = (None, s)"
| "addLoop env c pokers (h # hs) s =
     (case map_of (queries c) h of
        None \<Rightarrow> (Some (UndefinedQuery h), s)
      | Some q \<Rightarrow>
          (let (changes, p) = pl_addQuery env h (ast q) (pipelines s)
           in case processChanges env changes pokers (emit [AddQuery h (ast q)] (s\<lparr>pipelines := p\<rparr>)) of
                (Some e, s') \<Rightarrow> (Some e, s')
              | (None, s') \<Rightarrow> addLoop env c pokers hs s'))"

definition addAndRemoveQueries ::
  "('p, 'st) env \<Rightarrow> CVRSnapshot \<Rightarrow> queryHash list \<Rightarrow> queryHash list \<Rightarrow> ('p, 'st) service
     \<Rightarrow> error option \<times> ('p, 'st) service" where
  "addAndRemoveQueries env c addQueries removeQueries s =
     (if \<not> (addQueries \<noteq> [] \<or> removeQueries \<noteq> []) then (Some AssertionFailed, s)
      else
        let stateVersion = pl_currentVersion env (pipelines s);
            tracked = map (\<lambda>h. (h, h)) addQueries;
            ((newVersion, queryPatches), st) =
               qu_trackQueries env tracked removeQueries (qu_new env c stateVersion (cvrStore s));
            (pokers, s1) = startPokes newVersion (emit [TrackQueries tracked removeQueries] (s\<lparr>cvrStore := st\<rparr>));
            s2 = removeLoop env removeQueries (addPatches pokers (map Plain queryPatches) s1)
        in case addLoop env c pokers addQueries s2 of
             (Some e, s3) \<Rightarrow> (Some e, s3)
           | (None, s3) \<Rightarrow>
               (case qu_deleteUnreferencedRows env (cvrStore s3) of
                  (Inl e, st') \<Rightarrow> (Some e, emit [DeleteUnreferencedRows] (s3\<lparr>cvrStore := st'\<rparr>))
                | (Inr ps, st') \<Rightarrow>
                    (let s4 = addPatches pokers (map Plain ps)
                                (emit [DeleteUnreferencedRows] (s3\<lparr>cvrStore := st'\<rparr>))
                     in case qu_flush env (cvrStore s4) of
                          (Inl e, st'') \<Rightarrow> (Some e, emit [FlushFailed e] (s4\<lparr>cvrStore := st''\<rparr>))
                        | (Inr c', st'') \<Rightarrow>
                            (case catchupClients env c addQueries (Some pokers)
                                    (emit [Flushed c'] (s4\<lparr>cvrStore := st'', cvr := Some c'\<rparr>)) of
                               (Some e, s5) \<Rightarrow> (Some e, s5)
                             | (None, s5) \<Rightarrow> (None, endPokes pokers s5)))))"

section \<open>Reconciling the pipeline with the CVR\<close>

definition isDesired :: "QueryRecord \<Rightarrow> bool" where
  "isDesired q = (internal q \<or> length (desiredBy q) > 0)"

definition allClientQueries :: "CVRSnapshot \<Rightarrow> queryHash list" where
  "allClientQueries c = map fst (queries c)"

definition desiredClientQueries :: "CVRSnapshot \<Rightarrow> queryHash list" where
  "desiredClientQueries c =
     filter (\<lambda>i. case map_of (queries c) i of None \<Rightarrow> False | Some q \<Rightarrow> isDesired q)
       (map fst (queries c))"

definition assertSynced :: "('p, 'st) env \<Rightarrow> ('p, 'st) service \<Rightarrow> error option" where
  "assertSynced env s =
     (case cvr s of
        None \<Rightarrow> Some AssertionFailed
      | Some c \<Rightarrow>
          if stateVersion (cvr_version c) = pl_currentVersion env (pipelines s) then None
          else Some AssertionFailed)"

definition syncQueryPipelineSet ::
  "('p, 'st) env \<Rightarrow> ('p, 'st) service \<Rightarrow> error option \<times> ('p, 'st) service" where
  "syncQueryPipelineSet env s =
     (case cvr s of
        None \<Rightarrow> (Some AssertionFailed, s)
      | Some c \<Rightarrow>
          if \<not> pl_initialized env (pipelines s) then (Some AssertionFailed, s)
          else
            let hydratedQueries = pl_addedQueries env (pipelines s);
                addQueries = difference (desiredClientQueries c) hydratedQueries;
                removeQueries = difference (allClientQueries c) (desiredClientQueries c)
            in (case (if length addQueries > 0 \<or> length removeQueries > 0
                      then addAndRemoveQueries env c addQueries removeQueries s
                      else catchupClients env c [] None s) of
                  (Some e, s') \<Rightarrow> (Some e, s')
                | (None, s') \<Rightarrow> (assertSynced env s', s')))"

section \<open>Hydrating unchanged queries\<close>

fun hydrateLoop ::
  "('p, 'st) env \<Rightarrow> (queryHash \<times> QueryRecord) list \<Rightarrow> ('p, 'st) service
     \<Rightarrow> error option \<times> ('p, 'st) service" where
  "hydrateLoop env [] s = (None, s)"
| "hydrateLoop env ((h, q) # gs) s =
     (if \<not> internal q \<and> length (desiredBy q) = 0 then hydrateLoop env gs s
      else if Some h \<noteq> transformationHash q then hydrateLoop env gs s
      else
        let (changes, p) = pl_addQuery env h (ast q) (pipelines s);
            s' = emit [AddQuery h (ast q)] (s\<lparr>pipelines := p\<rparr>)
        in case snd changes of
             Some e \<Rightarrow> (Some e, s')
           | None \<Rightarrow> hydrateLoop env gs s')"

definition hydrateUnchangedQueries ::
  "('p, 'st) env \<Rightarrow> ('p, 'st) service \<Rightarrow> error option \<times> ('p, 'st) service" where
  "hydrateUnchangedQueries env s =
     (case cvr s of
        None \<Rightarrow> (Some AssertionFailed, s)
      | Some c \<Rightarrow>
          if \<not> pl_initialized env (pipelines s) then (Some AssertionFailed, s)
          else if stateVersion (cvr_version c) \<noteq> pl_currentVersion env (pipelines s) then (None, s)
          else hydrateLoop env (filter (\<lambda>(_, q). transformationHash q \<noteq> None) (queries c)) s)"

section \<open>Client requests\<close>

fun patchLoop ::
  "('p, 'st) env \<Rightarrow> clientID \<Rightarrow> QueriesPatchOp list \<Rightarrow> (queryHash \<times> AST) list \<Rightarrow> 'st
     \<Rightarrow> (queryHash \<times> AST) list \<times> 'st" where
  "patchLoop env cid [] added st = (added, st)"
| "patchLoop env cid (PutOp h a # ps) added st =
     (let (new, st') = cu_putDesiredQueries env cid h a st in patchLoop env cid ps (added @ new) st')"
| "patchLoop env cid (DelOp h # ps) added st =
     patchLoop env cid ps added (cu_deleteDesiredQueries env cid h st)"
| "patchLoop env cid (ClearOp # ps) added st =
     patchLoop env cid ps added (cu_clearDesiredQueries env cid st)"

definition applyPatches ::
  "('p, 'st) env \<Rightarrow> clientID \<Rightarrow> QueriesPatchOp list \<Rightarrow> CVRSnapshot \<Rightarrow> ('p, 'st) service
     \<Rightarrow> error option \<times> ('p, 'st) service" where
  "applyPatches env cid desiredQueriesPatch c s =
     (let (added, st) = patchLoop env cid desiredQueriesPatch [] (cu_new env c (cvrStore s))
      in case cu_flush env st of
           (Inl e, st') \<Rightarrow> (Some e, emit [FlushFailed e] (s\<lparr>cvrStore := st'\<rparr>))
         | (Inr c', st') \<Rightarrow> (None, emit [Flushed c'] (s\<lparr>cvrStore := st', cvr := Some c'\<rparr>)))"

definition patchQueries ::
  "('p, 'st) env \<Rightarrow> clientID \<Rightarrow> QueriesPatchOp list \<Rightarrow> ('p, 'st) service
     \<Rightarrow> error option \<times> ('p, 'st) service" where
  "patchQueries env cid desiredQueriesPatch s =
     (case cvr s of
        None \<Rightarrow> (Some AssertionFailed, s)
      | Some c \<Rightarrow>
          (case (if length desiredQueriesPatch > 0 then applyPatches env cid desiredQueriesPatch c s
                 else (None, s)) of
             (Some e, s1) \<Rightarrow> (Some e, s1)
           | (None, s1) \<Rightarrow>
               if pl_initialized env (pipelines s1) then syncQueryPipelineSet env s1 else (None, s1)))"

definition clearIdleTimeout :: "('p, 'st) service \<Rightarrow> ('p, 'st) service" where
  "clearIdleTimeout s =
     (case idleToken s of
        None \<Rightarrow> s
      | Some t \<Rightarrow> s\<lparr>timers := removeAll t (timers s), idleToken := None\<rparr>)"

definition runInLockForClient ::
  "SyncContext \<Rightarrow> 'b \<Rightarrow> (clientID \<Rightarrow> 'b \<Rightarrow> ('p, 'st) service \<Rightarrow> error option \<times> ('p, 'st) service)
     \<Rightarrow> ClientHandler option \<Rightarrow> ('p, 'st) service \<Rightarrow> error option \<times> ('p, 'st) service" where
  "runInLockForClient ctx body fn newClient s =
     (let (client, locked) =
            (case newClient of
               Some nc \<Rightarrow>
                 if wsID nc \<noteq> ctx_wsID ctx then (None, (Some AssertionFailed, s))
                 else
                   let s1 = (case map_of (clients s) (ctx_clientID ctx) of
                               None \<Rightarrow> s
                             | Some old \<Rightarrow> emit [CloseClient (hid old)] s)
                   in (Some nc,
                       fn (ctx_clientID ctx) body
                         (s1\<lparr>clients := AList.update (ctx_clientID ctx) nc (clients s1)\<rparr>))
             | None \<Rightarrow>
                 (let client = map_of (clients s) (ctx_clientID ctx)
                  in if map_option wsID client \<noteq> Some (ctx_wsID ctx) then (client, (None, s))
                     else (client, fn (ctx_clientID ctx) body s)))
      in case locked of
           (Some e, s') \<Rightarrow>
             (Some e, case client of None \<Rightarrow> s' | Some cl \<Rightarrow> emit [FailClient (hid cl) e] s')
         | (None, s') \<Rightarrow> (None, clearIdleTimeout s'))"

definition initConnection ::
  "('p, 'st) env \<Rightarrow> SyncContext \<Rightarrow> QueriesPatchOp list \<Rightarrow> ('p, 'st) service
     \<Rightarrow> (error + nat) \<times> ('p, 'st) service" where
  "initConnection env ctx initConnectionMessage s =
     (let newClient = \<lparr>hid = nextObj s, h_clientID = ctx_clientID ctx, wsID = ctx_wsID ctx,
                       baseCookie = ctx_baseCookie ctx\<rparr>
      in case runInLockForClient ctx initConnectionMessage (patchQueries env) (Some newClient)
                (s\<lparr>nextObj := Suc (nextObj s)\<rparr>) of
           (Some e, s') \<Rightarrow> (Inl e, s')
         | (None, s') \<Rightarrow> (Inr (hid newClient), s'))"

definition changeDesiredQueries ::
  "('p, 'st) env \<Rightarrow> SyncContext \<Rightarrow> QueriesPatchOp list \<Rightarrow> ('p, 'st) service
     \<Rightarrow> error option \<times> ('p, 'st) service" where
  "changeDesiredQueries env ctx msg s = runInLockForClient ctx msg (patchQueries env) None s"

section \<open>Advancing the pipeline\<close>

definition advancePipelines ::
  "('p, 'st) env \<Rightarrow> ('p, 'st) service \<Rightarrow> error option \<times> ('p, 'st) service" where
  "advancePipelines env s =
     (case cvr s of
        None \<Rightarrow> (Some AssertionFailed, s)
      | Some c \<Rightarrow>
          if \<not> pl_initialized env (pipelines s) then (Some AssertionFailed, s)
          else
            (case pl_advance env (pipelines s) of
               (Inl e, p) \<Rightarrow> (Some e, emit [Advance] (s\<lparr>pipelines := p\<rparr>))
             | (Inr (newVersion, numChanges, changes), p) \<Rightarrow>
                 (let st = qu_new env c newVersion (cvrStore s);
                      (pokers, s1) = startPokes (qu_updatedVersion env st)
                                       (emit [Advance] (s\<lparr>pipelines := p, cvrStore := st\<rparr>))
                  in case processChanges env changes pokers s1 of
                       (Some e, s2) \<Rightarrow> (Some e, s2)
                     | (None, s2) \<Rightarrow>
                         (case qu_flush env (cvrStore s2) of
                            (Inl e, st') \<Rightarrow> (Some e, emit [FlushFailed e] (s2\<lparr>cvrStore := st'\<rparr>))
                          | (Inr c', st') \<Rightarrow>
                              (None, endPokes pokers
                                       (emit [Flushed c'] (s2\<lparr>cvrStore := st', cvr := Some c'\<rparr>)))))))"

section \<open>Lifecycle: idle timer, client removal, run loop\<close>

text \<open>\<^verbatim>\<open>#startIdleTimer\<close>: the previous timeout is cleared, a new token object becomes the
  current one and a timeout that checks it is scheduled.\<close>

definition startIdleTimer :: "('p, 'st) service \<Rightarrow> ('p, 'st) service" where
  "startIdleTimer s =
     (let pending = (case idleToken s of None \<Rightarrow> timers s | Some t \<Rightarrow> removeAll t (timers s))
      in s\<lparr>idleToken := Some (nextObj s), timers := pending @ [nextObj s], nextObj := Suc (nextObj s)\<rparr>)"

text \<open>The timeout scheduled for token \<open>t\<close> fires.\<close>

definition idleTimeout :: "nat \<Rightarrow> ('p, 'st) service \<Rightarrow> ('p, 'st) service" where
  "idleTimeout t s =
     (if t \<notin> set (timers s) then s
      else
        let s1 = s\<lparr>timers := removeAll t (timers s)\<rparr>
        in if idleToken s1 = Some t
           then emit [CancelVersionChanges] (s1\<lparr>versionChangesActive := False\<rparr>)
           else s1)"

definition keepalive :: "('p, 'st) service \<Rightarrow> bool \<times> ('p, 'st) service" where
  "keepalive s =
     (if \<not> versionChangesActive s then (False, s)
      else (True, if idleToken s \<noteq> None then startIdleTimer s else s))"

definition deleteClient :: "clientID \<Rightarrow> ClientHandler \<Rightarrow> ('p, 'st) service \<Rightarrow> ('p, 'st) service" where
  "deleteClient cid client s =
     (case map_of (clients s) cid of
        None \<Rightarrow> s
      | Some c \<Rightarrow>
          if hid c = hid client then
            (let s1 = s\<lparr>clients := AList.delete cid (clients s)\<rparr>
             in if length (clients s1) = 0 then startIdleTimer s1 else s1)
          else s)"

definition stop :: "('p, 'st) service \<Rightarrow> ('p, 'st) service" where
  "stop s = emit [CancelVersionChanges] (s\<lparr>versionChangesActive := False\<rparr>)"

definition cleanup :: "('p, 'st) env \<Rightarrow> error option \<Rightarrow> ('p, 'st) service \<Rightarrow> ('p, 'st) service" where
  "cleanup env err s =
     emit (PipelineDestroy #
           map (\<lambda>(_, c). case err of None \<Rightarrow> CloseClient (hid c) | Some e \<Rightarrow> FailClient (hid c) e)
             (clients s))
       (s\<lparr>pipelines := pl_destroy env (pipelines s)\<rparr>)"

text \<open>The first statement of \<^verbatim>\<open>run\<close>: load the CVR.\<close>

definition loadCVR :: "('p, 'st) env \<Rightarrow> ('p, 'st) service \<Rightarrow> error option \<times> ('p, 'st) service" where
  "loadCVR env s =
     (case cs_load env (cvrStore s) of
        Inl e \<Rightarrow> (Some e, s)
      | Inr c \<Rightarrow> (None, s\<lparr>cvr := Some c\<rparr>))"

text \<open>The body of the loop of \<^verbatim>\<open>run\<close> for one version-ready signal.\<close>

definition onVersionReady ::
  "('p, 'st) env \<Rightarrow> ('p, 'st) service \<Rightarrow> error option \<times> ('p, 'st) service" where
  "onVersionReady env s =
     (if \<not> pl_initialized env (pipelines s) then
        (case hydrateUnchangedQueries env (emit [PipelineInit] (s\<lparr>pipelines := pl_init env (pipelines s)\<rparr>)) of
           (Some e, s1) \<Rightarrow> (Some e, s1)
         | (None, s1) \<Rightarrow> syncQueryPipelineSet env s1)
      else advancePipelines env s)"


section \<open>Operations as steps of a run\<close>

text \<open>What reaches the service from outside: a version-ready signal of the replica, the
  two client requests, the cleanup of a closed downstream connection, a keepalive, and
  the firing of an idle timeout.\<close>

datatype request =
    VersionReady
  | InitConnection SyncContext "QueriesPatchOp list"
  | ChangeDesiredQueries SyncContext "QueriesPatchOp list"
  | ConnectionClosed clientID ClientHandler
  | Keepalive
  | TimerFired nat

definition step ::
  "('p, 'st) env \<Rightarrow> request \<Rightarrow> ('p, 'st) service \<Rightarrow> error option \<times> ('p, 'st) service" where
  "step env r s =
     (case r of
        VersionReady \<Rightarrow> onVersionReady env s
      | InitConnection ctx msg \<Rightarrow>
          (case initConnection env ctx msg s of (Inl e, s') \<Rightarrow> (Some e, s') | (Inr _, s') \<Rightarrow> (None, s'))
      | ChangeDesiredQueries ctx msg \<Rightarrow> changeDesiredQueries env ctx msg s
      | ConnectionClosed cid h \<Rightarrow> (None, deleteClient cid h s)
      | Keepalive \<Rightarrow> (None, snd (keepalive s))
      | TimerFired t \<Rightarrow> (None, idleTimeout t s))"

text \<open>A run handles requests one after the other, up to the first one that fails.\<close>

fun exec ::
  "('p, 'st) env \<Rightarrow> request list \<Rightarrow> ('p, 'st) service \<Rightarrow> error option \<times> ('p, 'st) service" where
  "exec env [] s = (None, s)"
| "exec env (r # rs) s =
     (case step env r s of
        (Some e, s') \<Rightarrow> (Some e, s')
      | (None, s') \<Rightarrow> exec env rs s')"

section \<open>Reading the log\<close>

definition newEvents :: "('p, 'st) service \<Rightarrow> ('p, 'st) service \<Rightarrow> event list" where
  "newEvents s s' = drop (length (trace s)) (trace s')"


definition patchEvents :: "nat list \<Rightarrow> PokePatch list \<Rightarrow> event list" where
  "patchEvents pokers ps = concat (map (\<lambda>p. map (\<lambda>h. AddPatch h p) pokers) ps)"

text \<open>The versions of the pokes started on handler \<open>h\<close>, in order.\<close>

fun pokeVersions :: "nat \<Rightarrow> event list \<Rightarrow> Version list" where
  "pokeVersions h [] = []"
| "pokeVersions h (StartPoke h' v # evs) =
     (if h' = h then v # pokeVersions h evs else pokeVersions h evs)"
| "pokeVersions h (_ # evs) = pokeVersions h evs"

text \<open>The snapshot the pointer holds after the flushes logged in a stretch of the log.\<close>

fun lastFlushed :: "CVRSnapshot option \<Rightarrow> event list \<Rightarrow> CVRSnapshot option" where
  "lastFlushed cur [] = cur"
| "lastFlushed cur (Flushed c # evs) = lastFlushed (Some c) evs"
| "lastFlushed cur (_ # evs) = lastFlushed cur evs"

definition isEndPoke :: "event \<Rightarrow> bool" where
  "isEndPoke ev = (case ev of EndPoke _ \<Rightarrow> True | _ \<Rightarrow> False)"

definition isFlushFailed :: "event \<Rightarrow> bool" where
  "isFlushFailed ev = (case ev of FlushFailed _ \<Rightarrow> True | _ \<Rightarrow> False)"

section \<open>The staging of one batch, stated on its own\<close>


text \<open>What the specification says of a batch: a valid \<^verbatim>\<open>_0_version\<close> is a string of
  length at least one; the first non-null row seen for a row id; the net of the
  \<open>+1\<close> and \<open>-1\<close> of the changes of a row id under a query.\<close>

definition validVersion :: "Row \<Rightarrow> bool" where
  "validVersion r =
     (case map_of r ZERO_VERSION_COLUMN_NAME of Some (JStr v) \<Rightarrow> length v \<ge> 1 | _ \<Rightarrow> False)"








text \<open>What the specification says of the reconciler: the desired queries and the two
  differences, as sets.\<close>

definition specDesired :: "CVRSnapshot \<Rightarrow> queryHash set" where
  "specDesired c =
     {h. \<exists>q. map_of (queries c) h = Some q \<and> (internal q \<or> desiredBy q \<noteq> [])}"

definition specToAdd :: "CVRSnapshot \<Rightarrow> queryHash set \<Rightarrow> queryHash set" where
  "specToAdd c hydrated = specDesired c - hydrated"

definition specToRemove :: "CVRSnapshot \<Rightarrow> queryHash set" where
  "specToRemove c = fst ` set (queries c) - specDesired c"


section \<open>A pipeline, a store and client handlers after the specification\<close>

text \<open>Modelled from the spec: the pipeline driver (pipeline-driver.ts) is not part of the
  sources at hand. Section 4.4 of the specification gives its contract: \<open>addQuery\<close>
  hydrates the query against the current snapshot and yields one change per matching
  row, with the selected columns and \<^verbatim>\<open>_0_version\<close>, and fails with \<open>BadQuery\<close> if the
  AST references nonexistent columns; \<open>advance\<close> consumes the next replica delta and
  surfaces \<open>Internal\<close> on a row it cannot parse; \<open>getRow\<close> is a point lookup.\<close>

record Pipeline =
  p_initialized :: bool
  p_version :: string
  p_schema :: "(string \<times> string list) list"
  p_data :: "(string \<times> (RowKey \<times> Row) list) list"
  p_added :: "queryHash list"
  p_pending :: "(string \<times> RowChange list) list"

definition sp_addQuery ::
  "queryHash \<Rightarrow> AST \<Rightarrow> Pipeline \<Rightarrow> (RowChange list \<times> error option) \<times> Pipeline" where
  "sp_addQuery h a p =
     (case map_of (p_schema p) (ast_table a) of
        None \<Rightarrow> (([], Some BadQuery), p)
      | Some cols \<Rightarrow>
          if \<not> list_all (\<lambda>col. col \<in> set cols) (ast_select a) then (([], Some BadQuery), p)
          else
            ((map (\<lambda>(k, r). \<lparr>queryHash = h, rc_table = ast_table a, rc_rowKey = k,
                            row = Some (filter (\<lambda>(col, _). col \<in> set (ast_select a) \<or>
                                                    col = ZERO_VERSION_COLUMN_NAME) r)\<rparr>)
                (case map_of (p_data p) (ast_table a) of None \<Rightarrow> [] | Some rs \<Rightarrow> rs),
              None),
             p\<lparr>p_added := p_added p @ [h]\<rparr>))"

definition sp_advance ::
  "Pipeline \<Rightarrow> (error + (string \<times> nat \<times> (RowChange list \<times> error option))) \<times> Pipeline" where
  "sp_advance p =
     (case p_pending p of
        [] \<Rightarrow> (Inr (p_version p, 0, ([], None)), p)
      | (v, cs) # rest \<Rightarrow>
          if list_all (\<lambda>c. case row c of None \<Rightarrow> True | Some r \<Rightarrow> validVersion r) cs
          then (Inr (v, length cs, (cs, None)), p\<lparr>p_version := v, p_pending := rest\<rparr>)
          else (Inl Internal, p))"

definition sp_getRow :: "string \<Rightarrow> RowKey \<Rightarrow> Pipeline \<Rightarrow> Row option" where
  "sp_getRow t k p = (case map_of (p_data p) t of None \<Rightarrow> None | Some rs \<Rightarrow> map_of rs k)"

text \<open>Modelled from the spec: the CVR store and the two updaters (cvr-store.ts, cvr.ts)
  are not part of the sources at hand. Sections 4.2, 4.3 and 6 of the specification give
  the contract: the store keeps the CVR and its row table durably; an updater stages
  changes against a snapshot and \<open>flush\<close> makes them durable at once and returns the new
  snapshot, or fails with \<open>Unavailable\<close> and changes nothing; the config-driven updater
  bumps \<open>minorVersion\<close>; \<open>trackQueries\<close> answers a version at the state version of the
  updater with \<open>minorVersion\<close> bumped.\<close>

record Store =
  st_reachable :: bool
  st_cvr :: CVRSnapshot
  st_rows :: "RowPatchRecord list"
  st_log :: "(Version \<times> Patch) list"
  st_staged :: CVRSnapshot
  st_stagedRows :: "RowPatchRecord list"
  st_pending :: "Patch list"
  st_removed :: "queryHash list"

definition bumpMinor :: "Version \<Rightarrow> Version" where
  "bumpMinor v = v\<lparr>minorVersion := Suc (minorVersion v)\<rparr>"

text \<open>The string form of a version in the row table: the state version, then a colon
  and one mark for each minor step.\<close>

definition sp_versionString :: "Version \<Rightarrow> string" where
  "sp_versionString v =
     stateVersion v @ (if minorVersion v = 0 then [] else CHR '':'' # replicate (minorVersion v) CHR ''i'')"

definition sp_versionFromString :: "string \<Rightarrow> Version" where
  "sp_versionFromString s =
     \<lparr>stateVersion = takeWhile (\<lambda>ch. ch \<noteq> CHR '':'') s,
      minorVersion = length (dropWhile (\<lambda>ch. ch \<noteq> CHR '':'') s) - 1\<rparr>"

definition sp_load :: "Store \<Rightarrow> error + CVRSnapshot" where
  "sp_load st = (if st_reachable st then Inr (st_cvr st) else Inl Unavailable)"

definition inRange :: "Version \<Rightarrow> Version \<Rightarrow> Version \<Rightarrow> bool" where
  "inRange from to v = (cmpVersions from v < 0 \<and> cmpVersions v to \<le> 0)"

definition soleReferenceIn :: "queryHash list \<Rightarrow> RowPatchRecord \<Rightarrow> bool" where
  "soleReferenceIn excl r =
     (case rp_refCounts r of Some [(q, _)] \<Rightarrow> q \<in> set excl | _ \<Rightarrow> False)"

definition sp_catchupRowPatches ::
  "Version \<Rightarrow> CVRSnapshot \<Rightarrow> queryHash list \<Rightarrow> Store \<Rightarrow> RowPatchRecord list list \<times> error option" where
  "sp_catchupRowPatches from c excl st =
     (if st_reachable st then
        ([filter (\<lambda>r. inRange from (cvr_version c) (sp_versionFromString (rp_patchVersion r)) \<and>
                      \<not> soleReferenceIn excl r) (st_rows st)], None)
      else ([], Some Unavailable))"

definition sp_catchupConfigPatches :: "Version \<Rightarrow> CVRSnapshot \<Rightarrow> Store \<Rightarrow> error + Patch list" where
  "sp_catchupConfigPatches from c st =
     (if st_reachable st then
        Inr (map snd (filter (\<lambda>(v, _). inRange from (cvr_version c) v) (st_log st)))
      else Inl Unavailable)"

definition sp_flush :: "Store \<Rightarrow> (error + CVRSnapshot) \<times> Store" where
  "sp_flush st =
     (if st_reachable st then
        (Inr (st_staged st),
         st\<lparr>st_cvr := st_staged st, st_rows := st_stagedRows st,
            st_log := st_log st @ map (\<lambda>p. (cvr_version (st_staged st), p)) (st_pending st),
            st_pending := []\<rparr>)
      else (Inl Unavailable, st))"

definition sp_cu_new :: "CVRSnapshot \<Rightarrow> Store \<Rightarrow> Store" where
  "sp_cu_new c st =
     st\<lparr>st_staged := c\<lparr>cvr_version := bumpMinor (cvr_version c)\<rparr>,
        st_stagedRows := st_rows st, st_pending := [], st_removed := []\<rparr>"

definition sp_putDesiredQueries ::
  "clientID \<Rightarrow> queryHash \<Rightarrow> AST \<Rightarrow> Store \<Rightarrow> (queryHash \<times> AST) list \<times> Store" where
  "sp_putDesiredQueries cid h a st =
     (let c = st_staged st;
          v = cvr_version c;
          cl = (case map_of (cvr_clients c) cid of
                  None \<Rightarrow> \<lparr>c_id = cid, c_patchVersion = v, desiredQueryIDs = []\<rparr>
                | Some x \<Rightarrow> x);
          cl' = cl\<lparr>desiredQueryIDs :=
                     (if h \<in> set (desiredQueryIDs cl) then desiredQueryIDs cl else desiredQueryIDs cl @ [h])\<rparr>;
          new = (case map_of (queries c) h of None \<Rightarrow> [(h, a)] | Some _ \<Rightarrow> []);
          q' = (case map_of (queries c) h of
                  None \<Rightarrow> \<lparr>q_id = h, ast = a, desiredBy = [(cid, v)], internal = False,
                            transformationHash = None\<rparr>
                | Some q \<Rightarrow> q\<lparr>desiredBy := AList.update cid v (desiredBy q)\<rparr>)
      in (new,
          st\<lparr>st_staged := c\<lparr>cvr_clients := AList.update cid cl' (cvr_clients c),
                             queries := AList.update h q' (queries c)\<rparr>,
             st_pending := st_pending st @ [PutDesired cid h a]\<rparr>))"

definition sp_deleteDesiredQueries :: "clientID \<Rightarrow> queryHash \<Rightarrow> Store \<Rightarrow> Store" where
  "sp_deleteDesiredQueries cid h st =
     (let c = st_staged st;
          cls = (case map_of (cvr_clients c) cid of
                   None \<Rightarrow> cvr_clients c
                 | Some cl \<Rightarrow>
                     AList.update cid (cl\<lparr>desiredQueryIDs := removeAll h (desiredQueryIDs cl)\<rparr>)
                       (cvr_clients c));
          qs = (case map_of (queries c) h of
                  None \<Rightarrow> queries c
                | Some q \<Rightarrow> AList.update h (q\<lparr>desiredBy := AList.delete cid (desiredBy q)\<rparr>) (queries c))
      in st\<lparr>st_staged := c\<lparr>cvr_clients := cls, queries := qs\<rparr>,
            st_pending := st_pending st @ [DelDesired cid h]\<rparr>)"

definition sp_clearDesiredQueries :: "clientID \<Rightarrow> Store \<Rightarrow> Store" where
  "sp_clearDesiredQueries cid st =
     (case map_of (cvr_clients (st_staged st)) cid of
        None \<Rightarrow> st
      | Some cl \<Rightarrow> foldl (\<lambda>st' h. sp_deleteDesiredQueries cid h st') st (desiredQueryIDs cl))"

definition sp_qu_new :: "CVRSnapshot \<Rightarrow> string \<Rightarrow> Store \<Rightarrow> Store" where
  "sp_qu_new c sv st =
     st\<lparr>st_staged :=
          c\<lparr>cvr_version :=
              (if strLess (stateVersion (cvr_version c)) sv
               then (cvr_version c)\<lparr>stateVersion := sv\<rparr> else cvr_version c)\<rparr>,
        st_stagedRows := st_rows st, st_pending := [], st_removed := []\<rparr>"

definition sp_updatedVersion :: "Store \<Rightarrow> Version" where
  "sp_updatedVersion st = cvr_version (st_staged st)"

definition sp_trackQueries ::
  "(queryHash \<times> string) list \<Rightarrow> queryHash list \<Rightarrow> Store \<Rightarrow> (Version \<times> Patch list) \<times> Store" where
  "sp_trackQueries adds rems st =
     (let c = st_staged st;
          nv = bumpMinor (cvr_version c);
          qs = map (\<lambda>(h, q). case map_of adds h of
                                None \<Rightarrow> (h, q)
                              | Some th \<Rightarrow> (h, q\<lparr>transformationHash := Some th\<rparr>))
                 (filter (\<lambda>(h, _). h \<notin> set rems) (queries c));
          patches = concat (map (\<lambda>(h, _). case map_of (queries c) h of
                                             None \<Rightarrow> []
                                           | Some q \<Rightarrow> [PutQuery h (ast q)]) adds)
                    @ map DelQuery rems
      in ((nv, patches),
          st\<lparr>st_staged := c\<lparr>cvr_version := nv, queries := qs\<rparr>,
             st_pending := st_pending st @ patches, st_removed := rems\<rparr>))"

definition mergeCounts :: "(queryHash \<times> int) list \<Rightarrow> (queryHash \<times> int) list \<Rightarrow> (queryHash \<times> int) list" where
  "mergeCounts stored delta =
     filter (\<lambda>(_, n). n > 0)
       (foldl (\<lambda>acc (q, d). AList.update q (refCount acc q + d) acc) stored delta)"

definition sameRow :: "RowID \<Rightarrow> RowPatchRecord \<Rightarrow> bool" where
  "sameRow rid r = (rp_schema r = schema rid \<and> rp_table r = table rid \<and> rp_rowKey r = rowKey rid)"

definition sp_receivedRow ::
  "Version \<Rightarrow> RowID \<times> RowUpdate \<Rightarrow> RowPatchRecord list \<times> Patch list \<Rightarrow> RowPatchRecord list \<times> Patch list" where
  "sp_receivedRow v ru acc =
     (let rid = fst ru; u = snd ru; rows = fst acc;
          stored = (case find (sameRow rid) rows of
                      None \<Rightarrow> []
                    | Some r \<Rightarrow> (case rp_refCounts r of None \<Rightarrow> [] | Some rc \<Rightarrow> rc));
          merged = mergeCounts stored (refCounts u);
          record = \<lparr>rp_schema = schema rid, rp_table = table rid, rp_rowKey = rowKey rid,
                    rp_patchVersion = sp_versionString v,
                    rp_refCounts = (if merged = [] then None else Some merged)\<rparr>;
          patch = (if merged = [] then [DelRow rid]
                   else case contents u of None \<Rightarrow> [] | Some cont \<Rightarrow> [PutRow rid cont])
      in (filter (\<lambda>r. \<not> sameRow rid r) rows @ [record], snd acc @ patch))"

definition sp_received ::
  "(RowID \<times> RowUpdate) list \<Rightarrow> Store \<Rightarrow> (error + Patch list) \<times> Store" where
  "sp_received rows st =
     (if \<not> list_all (\<lambda>(_, u). case contents u of
                                 None \<Rightarrow> True
                               | Some _ \<Rightarrow> (case version u of None \<Rightarrow> False | Some v \<Rightarrow> length v \<ge> 1)) rows
      then (Inl Internal, st)
      else
        let res = foldl (\<lambda>acc ru. sp_receivedRow (cvr_version (st_staged st)) ru acc)
                    (st_stagedRows st, []) rows
        in (Inr (snd res), st\<lparr>st_stagedRows := fst res\<rparr>))"

definition sp_deleteUnreferencedRows :: "Store \<Rightarrow> (error + Patch list) \<times> Store" where
  "sp_deleteUnreferencedRows st =
     (let orphan = (\<lambda>r. case rp_refCounts r of
                          None \<Rightarrow> False
                        | Some rc \<Rightarrow> list_all (\<lambda>(q, _). q \<in> set (st_removed st)) rc);
          rid = (\<lambda>r. \<lparr>schema = rp_schema r, table = rp_table r, rowKey = rp_rowKey r\<rparr>)
      in (Inr (map (\<lambda>r. DelRow (rid r)) (filter orphan (st_stagedRows st))),
          st\<lparr>st_stagedRows :=
               map (\<lambda>r. if orphan r
                        then r\<lparr>rp_refCounts := None,
                               rp_patchVersion := sp_versionString (cvr_version (st_staged st))\<rparr>
                        else r) (st_stagedRows st)\<rparr>))"

text \<open>Modelled from the spec: the client handler (client-handler.ts) is not part of the
  sources at hand. Section 4.5 of the specification: \<open>version()\<close> is the latest version
  the client has acknowledged, initialised from the base cookie, a null base cookie
  being the minimum version; a poke is committed to the client by its \<open>pokeEnd\<close>.\<close>

fun ackVersion :: "nat \<Rightarrow> Version \<Rightarrow> Version option \<Rightarrow> event list \<Rightarrow> Version" where
  "ackVersion h cur pend [] = cur"
| "ackVersion h cur pend (StartPoke h' v # evs) =
     (if h' = h then ackVersion h cur (Some v) evs else ackVersion h cur pend evs)"
| "ackVersion h cur pend (EndPoke h' # evs) =
     (if h' = h then ackVersion h (case pend of None \<Rightarrow> cur | Some v \<Rightarrow> v) None evs
      else ackVersion h cur pend evs)"
| "ackVersion h cur pend (_ # evs) = ackVersion h cur pend evs"

definition sp_version :: "ClientHandler \<Rightarrow> event list \<Rightarrow> Version" where
  "sp_version c tr =
     ackVersion (hid c)
       (case baseCookie c of
          None \<Rightarrow> \<lparr>stateVersion = [], minorVersion = 0\<rparr>
        | Some ck \<Rightarrow> sp_versionFromString ck)
       None tr"

definition specEnv :: "(Pipeline, Store) env" where
  "specEnv =
     \<lparr>cs_load = sp_load,
      cs_catchupRowPatches = sp_catchupRowPatches,
      cs_catchupConfigPatches = sp_catchupConfigPatches,
      cu_new = sp_cu_new,
      cu_putDesiredQueries = sp_putDesiredQueries,
      cu_deleteDesiredQueries = sp_deleteDesiredQueries,
      cu_clearDesiredQueries = sp_clearDesiredQueries,
      cu_flush = sp_flush,
      qu_new = sp_qu_new,
      qu_updatedVersion = sp_updatedVersion,
      qu_trackQueries = sp_trackQueries,
      qu_received = sp_received,
      qu_deleteUnreferencedRows = sp_deleteUnreferencedRows,
      qu_flush = sp_flush,
      pl_initialized = p_initialized,
      pl_init = (\<lambda>p. p\<lparr>p_initialized := True\<rparr>),
      pl_destroy = (\<lambda>p. p\<lparr>p_initialized := False, p_added := []\<rparr>),
      pl_currentVersion = p_version,
      pl_addQuery = sp_addQuery,
      pl_removeQuery = (\<lambda>h p. p\<lparr>p_added := removeAll h (p_added p)\<rparr>),
      pl_addedQueries = p_added,
      pl_advance = sp_advance,
      pl_getRow = sp_getRow,
      ch_version = sp_version,
      versionFromString = sp_versionFromString\<rparr>"

section \<open>The scenario of the service test\<close>

text \<open>The data of view-syncer.test.ts: the client group \<open>9876\<close>, a replica at version
  \<open>1xz\<close> with the tables \<open>issues\<close> and \<open>users\<close> (one row of each), the client \<open>foo\<close>
  on the socket \<open>ws1\<close>, and the queries of the test.\<close>

definition emptyCVR :: CVRSnapshot where
  "emptyCVR =
     \<lparr>cvr_id = ''9876'', cvr_version = \<lparr>stateVersion = ''00'', minorVersion = 0\<rparr>,
      cvr_clients = [], queries = []\<rparr>"

definition issueRow :: "string \<Rightarrow> string \<Rightarrow> int \<Rightarrow> string \<Rightarrow> RowKey \<times> Row" where
  "issueRow i t b v =
     ([(''id'', JStr i)],
      [(''id'', JStr i), (''title'', JStr t), (''big'', JNum b), (''_0_version'', JStr v)])"

definition userRow :: "string \<Rightarrow> string \<Rightarrow> string \<Rightarrow> RowKey \<times> Row" where
  "userRow i n v = ([(''id'', JStr i)], [(''id'', JStr i), (''name'', JStr n), (''_0_version'', JStr v)])"

definition testPipeline :: Pipeline where
  "testPipeline =
     \<lparr>p_initialized = False, p_version = ''1xz'',
      p_schema = [(''issues'', [''id'', ''title'', ''big'']), (''users'', [''id'', ''name''])],
      p_data =
        [(''issues'', [issueRow ''1'' ''parent issue foo'' 9007199254740991 ''1a0'']),
         (''users'', [userRow ''100'' ''Alice'' ''0a''])],
      p_added = [], p_pending = []\<rparr>"

definition testStore :: Store where
  "testStore =
     \<lparr>st_reachable = True, st_cvr = emptyCVR, st_rows = [], st_log = [],
      st_staged = emptyCVR, st_stagedRows = [], st_pending = [], st_removed = []\<rparr>"


definition ISSUES_TITLE_QUERY :: AST where
  "ISSUES_TITLE_QUERY = AST ''issues'' [''id'', ''title'', ''big'']"

definition USERS_NAME_QUERY :: AST where
  "USERS_NAME_QUERY = AST ''users'' [''id'', ''name'']"

definition INVALID_QUERY :: AST where
  "INVALID_QUERY = AST ''users'' [''non_existent_column'']"









section \<open>Frames of the operations\<close>

text \<open>The events of the data phase of a poke: patches to pokers, batches to the
  updater, queries added to and removed from the pipeline, catch-up reads.\<close>

definition isWork :: "event \<Rightarrow> bool" where
  "isWork ev =
     (case ev of
        AddPatch _ _ \<Rightarrow> True
      | Received _ \<Rightarrow> True
      | AddQuery _ _ \<Rightarrow> True
      | RemoveQuery _ \<Rightarrow> True
      | CatchupFrom _ _ \<Rightarrow> True
      | _ \<Rightarrow> False)"

definition handlerIds :: "('p, 'st) service \<Rightarrow> nat list" where
  "handlerIds s = map (\<lambda>(_, c). hid c) (clients s)"

definition startEvents :: "Version \<Rightarrow> nat list \<Rightarrow> event list" where
  "startEvents v hs = map (\<lambda>h. StartPoke h v) hs"

text \<open>The fields of the service that only the connection lifecycle touches.\<close>

definition ctl :: "('p, 'st) service \<Rightarrow> (clientID \<times> ClientHandler) list \<times> nat option \<times> nat list \<times> nat \<times> bool" where
  "ctl s = (clients s, idleToken s, timers s, nextObj s, versionChangesActive s)"

text \<open>A property of the store that neither a \<^verbatim>\<open>received\<close> nor a
  \<^verbatim>\<open>deleteUnreferencedRows\<close> call of the updater breaks.\<close>

definition updaterClosed :: "('p, 'st) env \<Rightarrow> ('st \<Rightarrow> bool) \<Rightarrow> bool" where
  "updaterClosed env P =
     ((\<forall>rows st. P st \<longrightarrow> P (snd (qu_received env rows st))) \<and>
      (\<forall>st. P st \<longrightarrow> P (snd (qu_deleteUnreferencedRows env st))))"

text \<open>\<open>worked env s s'\<close>: from \<open>s\<close> to \<open>s'\<close> only the data phase of a poke went on. The
  lifecycle fields and the CVR pointer are the same, the log grew by data events, and
  the store moved by \<^verbatim>\<open>received\<close> calls only.\<close>

definition worked :: "('p, 'st) env \<Rightarrow> ('p, 'st) service \<Rightarrow> ('p, 'st) service \<Rightarrow> bool" where
  "worked env s s' =
     (ctl s' = ctl s \<and> cvr s' = cvr s \<and>
      (\<exists>evs. trace s' = trace s @ evs \<and> list_all isWork evs) \<and>
      (\<forall>P. updaterClosed env P \<longrightarrow> P (cvrStore s) \<longrightarrow> P (cvrStore s')))"

text \<open>\<open>pointerFollowsFlush env s R\<close>: over the operation that took the service from \<open>s\<close>
  to the outcome \<open>R\<close>, the CVR pointer holds the snapshot of the last successful flush
  logged, or the one it held before when there was none; every snapshot logged as
  flushed is one a flush of an updater returned; and when a flush failed, the operation
  failed with that error right there, the pointer still holds what it held before that
  flush, and no poke was ended.\<close>

definition pointerFollowsFlush ::
  "('p, 'st) env \<Rightarrow> ('p, 'st) service \<Rightarrow> error option \<times> ('p, 'st) service \<Rightarrow> bool" where
  "pointerFollowsFlush env s R =
     (let evs = newEvents s (snd R)
      in trace (snd R) = trace s @ evs \<and>
         cvr (snd R) = lastFlushed (cvr s) evs \<and>
         (\<forall>c. Flushed c \<in> set evs \<longrightarrow>
              (\<exists>st. fst (cu_flush env st) = Inr c \<or> fst (qu_flush env st) = Inr c)) \<and>
         (\<forall>e. FlushFailed e \<in> set evs \<longrightarrow>
              fst R = Some e \<and> last evs = FlushFailed e \<and>
              cvr (snd R) = lastFlushed (cvr s) (butlast evs) \<and>
              \<not> list_ex isEndPoke evs))"

text \<open>The service of the test once the client \<open>foo\<close> has connected with its query and
  has been brought to the replica version \<open>1xz\<close>; the log starts afresh.\<close>

definition fooCVR :: CVRSnapshot where
  "fooCVR =
     \<lparr>cvr_id = ''9876'', cvr_version = \<lparr>stateVersion = ''1xz'', minorVersion = 2\<rparr>,
      cvr_clients =
        [(''foo'', \<lparr>c_id = ''foo'', c_patchVersion = \<lparr>stateVersion = ''00'', minorVersion = 1\<rparr>,
                   desiredQueryIDs = [''query-hash1'']\<rparr>)],
      queries =
        [(''query-hash1'',
          \<lparr>q_id = ''query-hash1'', ast = ISSUES_TITLE_QUERY,
           desiredBy = [(''foo'', \<lparr>stateVersion = ''00'', minorVersion = 1\<rparr>)],
           internal = False, transformationHash = Some ''query-hash1''\<rparr>)]\<rparr>"

definition fooHandler :: ClientHandler where
  "fooHandler = \<lparr>hid = 0, h_clientID = ''foo'', wsID = ''ws1'', baseCookie = Some ''1xz:ii''\<rparr>"

definition fooStore :: Store where
  "fooStore =
     \<lparr>st_reachable = True, st_cvr = fooCVR, st_rows = [], st_log = [],
      st_staged = fooCVR, st_stagedRows = [], st_pending = [], st_removed = []\<rparr>"

definition connectedService :: "(Pipeline, Store) service" where
  "connectedService =
     \<lparr>cvr = Some fooCVR, clients = [(''foo'', fooHandler)], idleToken = None, timers = [],
      nextObj = 1, versionChangesActive = True,
      pipelines = testPipeline\<lparr>p_initialized := True, p_added := [''query-hash1'']\<rparr>,
      cvrStore = fooStore, trace = []\<rparr>"

text \<open>The replica has moved on to version \<open>1y0\<close>, where the title of issue 1 changed.\<close>

definition titleChange :: RowChange where
  "titleChange =
     \<lparr>queryHash = ''query-hash1'', rc_table = ''issues'', rc_rowKey = [(''id'', JStr ''1'')],
      row = Some [(''id'', JStr ''1''), (''title'', JStr ''baz''), (''big'', JNum 9007199254740991),
                  (''_0_version'', JStr ''1y0'')]\<rparr>"

definition advancedService :: "(Pipeline, Store) service" where
  "advancedService =
     connectedService\<lparr>pipelines := (pipelines connectedService)\<lparr>p_pending := [(''1y0'', [titleChange])]\<rparr>\<rparr>"

text \<open>The same, with the CVR storage out of reach.\<close>

definition outageService :: "(Pipeline, Store) service" where
  "outageService = advancedService\<lparr>cvrStore := (cvrStore advancedService)\<lparr>st_reachable := False\<rparr>\<rparr>"

text \<open>The same service with a pipeline that has not hydrated the query yet.\<close>

definition unhydratedService :: "(Pipeline, Store) service" where
  "unhydratedService = connectedService\<lparr>pipelines := testPipeline\<lparr>p_initialized := True\<rparr>\<rparr>"

text \<open>The queries \<^verbatim>\<open>#hydrateUnchangedQueries\<close> registers again: got, still desired, and
  with a stored transformation hash equal to their own hash.\<close>

definition rehydrated :: "CVRSnapshot \<Rightarrow> (queryHash \<times> QueryRecord) list" where
  "rehydrated c = filter (\<lambda>(h, q). isDesired q \<and> transformationHash q = Some h) (queries c)"

definition addQueryEvent :: "queryHash \<times> QueryRecord \<Rightarrow> event" where
  "addQueryEvent hq = AddQuery (fst hq) (ast (snd hq))"

text \<open>A CVR in which the client has given up its query: the query is still got, and no
  longer desired. The service starts on it with a pipeline at the version of the CVR.\<close>

definition staleCVR :: CVRSnapshot where
  "staleCVR =
     \<lparr>cvr_id = ''9876'', cvr_version = \<lparr>stateVersion = ''1xz'', minorVersion = 3\<rparr>,
      cvr_clients =
        [(''foo'', \<lparr>c_id = ''foo'', c_patchVersion = \<lparr>stateVersion = ''00'', minorVersion = 1\<rparr>,
                   desiredQueryIDs = []\<rparr>)],
      queries =
        [(''query-hash1'',
          \<lparr>q_id = ''query-hash1'', ast = ISSUES_TITLE_QUERY, desiredBy = [],
           internal = False, transformationHash = Some ''query-hash1''\<rparr>)]\<rparr>"

definition staleService :: "(Pipeline, Store) service" where
  "staleService =
     \<lparr>cvr = Some staleCVR, clients = [], idleToken = None, timers = [], nextObj = 0,
      versionChangesActive = True, pipelines = testPipeline\<lparr>p_initialized := True\<rparr>,
      cvrStore = testStore\<lparr>st_cvr := staleCVR, st_staged := staleCVR\<rparr>, trace = []\<rparr>"

text \<open>What the loop of \<^verbatim>\<open>#catchupClients\<close> makes of one row patch record: a delete
  when the record has no reference counts, else a put of the row the pipeline holds,
  each with the version of the record; and of a list of records: the patches up to the
  first record whose row the pipeline lacks, and the error raised there.\<close>

definition rowPatchOf :: "('p, 'st) env \<Rightarrow> 'p \<Rightarrow> RowPatchRecord \<Rightarrow> error + PokePatch" where
  "rowPatchOf env p r =
     (let rid = \<lparr>schema = rp_schema r, table = rp_table r, rowKey = rp_rowKey r\<rparr>;
          toVersion = versionFromString env (rp_patchVersion r)
      in case rp_refCounts r of
           None \<Rightarrow> Inr (PatchToVersion (DelRow rid) toVersion)
         | Some _ \<Rightarrow>
             (case pl_getRow env (rp_table r) (rp_rowKey r) p of
                None \<Rightarrow> Inl (MissingRow (rp_table r) (rp_rowKey r))
              | Some cont \<Rightarrow> Inr (PatchToVersion (PutRow rid cont) toVersion)))"

fun materialise :: "('p, 'st) env \<Rightarrow> 'p \<Rightarrow> RowPatchRecord list \<Rightarrow> PokePatch list \<times> error option" where
  "materialise env p [] = ([], None)"
| "materialise env p (r # rs) =
     (case rowPatchOf env p r of
        Inl e \<Rightarrow> ([], Some e)
      | Inr pp \<Rightarrow> (pp # fst (materialise env p rs), snd (materialise env p rs)))"

text \<open>The patches handed to the poker of handler \<open>h\<close> in a stretch of the log.\<close>

definition patchesTo :: "nat \<Rightarrow> event list \<Rightarrow> PokePatch list" where
  "patchesTo h evs =
     concat (map (\<lambda>ev. case ev of AddPatch h' p \<Rightarrow> if h' = h then [p] else [] | _ \<Rightarrow> []) evs)"

text \<open>Two clients on one CVR at version \<open>1xz:02\<close>: \<open>foo\<close> has acknowledged that version,
  \<open>bar\<close> is still at \<open>1xz\<close>. Since then the store has logged a config patch and a row
  patch at \<open>1xz:01\<close>.\<close>

definition barHandler :: ClientHandler where
  "barHandler = \<lparr>hid = 1, h_clientID = ''bar'', wsID = ''ws2'', baseCookie = Some ''1xz''\<rparr>"

definition issue1Patch :: RowPatchRecord where
  "issue1Patch =
     \<lparr>rp_schema = [], rp_table = ''issues'', rp_rowKey = [(''id'', JStr ''1'')],
      rp_patchVersion = ''1xz:i'', rp_refCounts = Some [(''query-hash1'', 1)]\<rparr>"

definition twoClientService :: "(Pipeline, Store) service" where
  "twoClientService =
     \<lparr>cvr = Some fooCVR, clients = [(''foo'', fooHandler), (''bar'', barHandler)],
      idleToken = None, timers = [], nextObj = 2, versionChangesActive = True,
      pipelines = testPipeline\<lparr>p_initialized := True, p_added := [''query-hash1'']\<rparr>,
      cvrStore =
        fooStore\<lparr>st_rows := [issue1Patch],
                 st_log := [(\<lparr>stateVersion = ''1xz'', minorVersion = 1\<rparr>,
                             PutQuery ''query-hash1'' ISSUES_TITLE_QUERY)]\<rparr>,
      trace = []\<rparr>"

text \<open>A message of the client \<open>foo\<close> that still names the socket of an earlier
  connection, and the context of a reconnect of \<open>foo\<close> on a new socket.\<close>

definition STALE_CONTEXT :: SyncContext where
  "STALE_CONTEXT = \<lparr>ctx_clientID = ''foo'', ctx_wsID = ''ws0'', ctx_baseCookie = None\<rparr>"

definition RECONNECT_CONTEXT :: SyncContext where
  "RECONNECT_CONTEXT = \<lparr>ctx_clientID = ''foo'', ctx_wsID = ''ws2'', ctx_baseCookie = Some ''1xz:ii''\<rparr>"


text \<open>Versions in their order: \<open>vle a b\<close> is \<^verbatim>\<open>cmpVersions(a, b) <= 0\<close>.\<close>

definition vle :: "Version \<Rightarrow> Version \<Rightarrow> bool" where
  "vle a b = (cmpVersions a b \<le> 0)"

text \<open>Every poke started so far carries a version that is at most the version of the
  CVR the service holds.\<close>

definition pokedUpTo :: "('p, 'st) service \<Rightarrow> bool" where
  "pokedUpTo s =
     (case cvr s of
        None \<Rightarrow> False
      | Some c \<Rightarrow>
          list_all (\<lambda>ev. case ev of StartPoke h v \<Rightarrow> vle v (cvr_version c) | _ \<Rightarrow> True) (trace s))"

definition pokeInv :: "nat \<Rightarrow> ('p, 'st) service \<Rightarrow> bool" where
  "pokeInv h s = (pokedUpTo s \<and> sorted_wrt vle (pokeVersions h (trace s)))"

text \<open>One round of pokes from \<open>s\<close> to \<open>s'\<close>: the pokes started in it all carry one version,
  which lies between the version of the CVR before and the version of the CVR after.\<close>

definition advances :: "('p, 'st) service \<Rightarrow> ('p, 'st) service \<Rightarrow> bool" where
  "advances s s' =
     (\<exists>c c' evs v. cvr s = Some c \<and> cvr s' = Some c' \<and> trace s' = trace s @ evs \<and>
        (\<forall>h u. StartPoke h u \<in> set evs \<longrightarrow> u = v) \<and>
        vle (cvr_version c) v \<and> vle v (cvr_version c'))"

text \<open>What the order of the poke versions needs of the updaters of cvr.ts, which are
  parameters here: a flush of the updater in state \<open>st\<close> that succeeds returns a snapshot
  at version \<open>v\<close> or later (\<open>flushesAtLeast\<close>); the config-driven updater flushes at the
  version of its snapshot or later; the version \<^verbatim>\<open>trackQueries\<close> answers and the
  \<^verbatim>\<open>updatedVersion()\<close> of a new query-driven updater are at the version of its snapshot
  or later, and the updater flushes at them or later; \<^verbatim>\<open>received\<close> and
  \<^verbatim>\<open>deleteUnreferencedRows\<close> do not take that back.\<close>

definition flushesAtLeast :: "('p, 'st) env \<Rightarrow> Version \<Rightarrow> 'st \<Rightarrow> bool" where
  "flushesAtLeast env v st =
     (case fst (qu_flush env st) of Inl e \<Rightarrow> True | Inr c' \<Rightarrow> vle v (cvr_version c'))"

definition updaterLaws :: "('p, 'st) env \<Rightarrow> bool" where
  "updaterLaws env =
     ((\<forall>c st cid ps.
         case fst (cu_flush env (snd (patchLoop env cid ps [] (cu_new env c st)))) of
           Inl e \<Rightarrow> True
         | Inr c' \<Rightarrow> vle (cvr_version c) (cvr_version c')) \<and>
      (\<forall>c sv st adds rems.
         vle (cvr_version c) (fst (fst (qu_trackQueries env adds rems (qu_new env c sv st)))) \<and>
         flushesAtLeast env (fst (fst (qu_trackQueries env adds rems (qu_new env c sv st))))
           (snd (qu_trackQueries env adds rems (qu_new env c sv st)))) \<and>
      (\<forall>c sv st.
         vle (cvr_version c) (qu_updatedVersion env (qu_new env c sv st)) \<and>
         flushesAtLeast env (qu_updatedVersion env (qu_new env c sv st)) (qu_new env c sv st)) \<and>
      (\<forall>v. updaterClosed env (flushesAtLeast env v)))"

text \<open>A second client, \<open>bar\<close>, connecting with no query of its own.\<close>

definition BAR_CONTEXT :: SyncContext where
  "BAR_CONTEXT = \<lparr>ctx_clientID = ''bar'', ctx_wsID = ''ws2'', ctx_baseCookie = None\<rparr>"

text \<open>The calls of \<open>addQuery\<close> for a list of queries, one after the other on the pipeline
  each call leaves: the pipeline after all of them, and the first call whose changes
  throw, with its position in the list and the error.\<close>

fun pipeAfter :: "('p, 'st) env \<Rightarrow> (queryHash \<times> QueryRecord) list \<Rightarrow> 'p \<Rightarrow> 'p" where
  "pipeAfter env [] p = p"
| "pipeAfter env (hq # hqs) p = pipeAfter env hqs (snd (pl_addQuery env (fst hq) (ast (snd hq)) p))"

fun firstThrow :: "('p, 'st) env \<Rightarrow> (queryHash \<times> QueryRecord) list \<Rightarrow> 'p \<Rightarrow> (nat \<times> error) option" where
  "firstThrow env [] p = None"
| "firstThrow env (hq # hqs) p =
     (case snd (fst (pl_addQuery env (fst hq) (ast (snd hq)) p)) of
        Some e \<Rightarrow> Some (0, e)
      | None \<Rightarrow>
          map_option (\<lambda>(k, e). (Suc k, e))
            (firstThrow env hqs (snd (pl_addQuery env (fst hq) (ast (snd hq)) p))))"

text \<open>A CVR with three got queries that are desired and unchanged, the second over a
  column that does not exist.\<close>

definition brokenCVR :: CVRSnapshot where
  "brokenCVR =
     \<lparr>cvr_id = ''9876'', cvr_version = \<lparr>stateVersion = ''1xz'', minorVersion = 3\<rparr>,
      cvr_clients =
        [(''foo'', \<lparr>c_id = ''foo'', c_patchVersion = \<lparr>stateVersion = ''00'', minorVersion = 1\<rparr>,
                   desiredQueryIDs = [''query-hash1'', ''query-hash3'', ''query-hash2'']\<rparr>)],
      queries =
        [(''query-hash1'',
          \<lparr>q_id = ''query-hash1'', ast = ISSUES_TITLE_QUERY,
           desiredBy = [(''foo'', \<lparr>stateVersion = ''00'', minorVersion = 1\<rparr>)],
           internal = False, transformationHash = Some ''query-hash1''\<rparr>),
         (''query-hash3'',
          \<lparr>q_id = ''query-hash3'', ast = INVALID_QUERY,
           desiredBy = [(''foo'', \<lparr>stateVersion = ''00'', minorVersion = 1\<rparr>)],
           internal = False, transformationHash = Some ''query-hash3''\<rparr>),
         (''query-hash2'',
          \<lparr>q_id = ''query-hash2'', ast = USERS_NAME_QUERY,
           desiredBy = [(''foo'', \<lparr>stateVersion = ''00'', minorVersion = 1\<rparr>)],
           internal = False, transformationHash = Some ''query-hash2''\<rparr>)]\<rparr>"

definition brokenService :: "(Pipeline, Store) service" where
  "brokenService =
     \<lparr>cvr = Some brokenCVR, clients = [], idleToken = None, timers = [], nextObj = 0,
      versionChangesActive = True, pipelines = testPipeline\<lparr>p_initialized := True\<rparr>,
      cvrStore = testStore\<lparr>st_cvr := brokenCVR, st_staged := brokenCVR\<rparr>, trace = []\<rparr>"

section \<open>Properties of the staging\<close>




























lemma newEvents_ext: "trace s' = trace s @ evs \<Longrightarrow> newEvents s s' = evs"
  by (simp add: newEvents_def)



lemma trace_emit: "trace (emit evs s) = trace s @ evs"
  by (simp add: emit_def)























section \<open>Properties of the frames\<close>

lemma worked_refl: "worked env s s"
  by (simp add: worked_def)

lemma worked_trans: "worked env s s1 \<Longrightarrow> worked env s1 s2 \<Longrightarrow> worked env s s2"
  unfolding worked_def by (elim conjE exE) auto

lemma worked_emit: "list_all isWork evs \<Longrightarrow> worked env s (emit evs s)"
  by (simp add: worked_def emit_def ctl_def)

lemma worked_pipelines: "worked env s (s\<lparr>pipelines := p\<rparr>)"
  by (simp add: worked_def ctl_def)

lemma worked_received: "worked env s (s\<lparr>cvrStore := snd (qu_received env rows (cvrStore s))\<rparr>)"
  by (simp add: worked_def ctl_def updaterClosed_def)

lemma isWork_patchEvents: "list_all isWork (patchEvents pokers ps)"
  by (simp add: patchEvents_def list_all_iff isWork_def)

lemma addPatches_emit: "addPatches pokers ps s = emit (patchEvents pokers ps) s"
  by (simp add: addPatches_def patchEvents_def)

lemma worked_addPatches: "worked env s (addPatches pokers ps s)"
  by (simp add: addPatches_emit worked_emit isWork_patchEvents)

lemma worked_processBatch: "worked env s (snd (processBatch env pokers rows s))"
proof -
  have r: "worked env s (emit [Received rows] (s\<lparr>cvrStore := snd (qu_received env rows (cvrStore s))\<rparr>))"
    by (rule worked_trans[OF worked_received worked_emit]) (simp add: isWork_def)
  show ?thesis
    using r worked_trans[OF r worked_addPatches]
    by (auto simp: processBatch_def split: prod.splits sum.splits)
qed

lemma worked_stageLoop: "worked env s (snd (stageLoop env pokers cs rows s))"
proof (induction cs arbitrary: rows s)
  case Nil
  show ?case by (simp add: worked_refl)
next
  case (Cons c cs)
  show ?case
  proof (cases "stageChange rows c")
    case (Inl e)
    then show ?thesis by (simp add: worked_refl)
  next
    case (Inr rows')
    show ?thesis
    proof (cases "length rows' mod CURSOR_PAGE_SIZE = 0")
      case False
      then show ?thesis using Inr Cons.IH by simp
    next
      case True
      obtain r s' where pb: "processBatch env pokers rows' s = (r, s')"
        by (cases "processBatch env pokers rows' s")
      have w: "worked env s s'" using worked_processBatch[of env s pokers rows'] pb by simp
      show ?thesis
      proof (cases r)
        case None
        then show ?thesis using Inr True pb worked_trans[OF w Cons.IH[where rows="[]" and s=s']] by simp
      next
        case (Some e)
        then show ?thesis using Inr True pb w by simp
      qed
    qed
  qed
qed

lemma worked_processChanges: "worked env s (snd (processChanges env chs pokers s))"
proof -
  obtain res s1 where sl: "stageLoop env pokers (fst chs) [] s = (res, s1)"
    by (cases "stageLoop env pokers (fst chs) [] s")
  have w1: "worked env s s1" using worked_stageLoop[of env s pokers "fst chs" "[]"] sl by simp
  show ?thesis
    using sl w1 worked_trans[OF w1 worked_processBatch]
    by (auto simp: processChanges_def split: sum.splits option.splits)
qed

lemma worked_rowPatchLoop: "worked env s (snd (rowPatchLoop env pokers rs s))"
proof (induction rs arbitrary: s)
  case Nil
  show ?case by (simp add: worked_refl)
next
  case (Cons r rs)
  show ?case
    using worked_trans[OF worked_addPatches Cons.IH]
    by (auto simp: Let_def worked_refl split: option.splits)
qed

lemma worked_removeLoop: "worked env s (removeLoop env hs s)"
proof (induction hs arbitrary: s)
  case Nil
  show ?case by (simp add: worked_refl)
next
  case (Cons h hs)
  have "worked env s (emit [RemoveQuery h] (s\<lparr>pipelines := pl_removeQuery env h (pipelines s)\<rparr>))"
    by (rule worked_trans[OF worked_pipelines worked_emit]) (simp add: isWork_def)
  then show ?case using worked_trans Cons.IH by fastforce
qed

lemma worked_addLoop: "worked env s (snd (addLoop env c pokers hs s))"
proof (induction hs arbitrary: s)
  case Nil
  show ?case by (simp add: worked_refl)
next
  case (Cons h hs)
  show ?case
  proof (cases "map_of (queries c) h")
    case None
    then show ?thesis by (simp add: worked_refl)
  next
    case (Some q)
    obtain changes p where aq: "pl_addQuery env h (ast q) (pipelines s) = (changes, p)"
      by (cases "pl_addQuery env h (ast q) (pipelines s)")
    let ?s1 = "emit [AddQuery h (ast q)] (s\<lparr>pipelines := p\<rparr>)"
    have w1: "worked env s ?s1"
      by (rule worked_trans[OF worked_pipelines worked_emit]) (simp add: isWork_def)
    obtain r s2 where pc: "processChanges env changes pokers ?s1 = (r, s2)"
      by (cases "processChanges env changes pokers ?s1")
    have w2: "worked env s s2"
      using worked_trans[OF w1 worked_processChanges[of env ?s1 changes pokers]] pc by simp
    show ?thesis
    proof (cases r)
      case None
      then show ?thesis using Some aq pc worked_trans[OF w2 Cons.IH[of s2]] by simp
    next
      case (Some e)
      then show ?thesis using \<open>map_of (queries c) h = Some q\<close> aq pc w2 by simp
    qed
  qed
qed

lemma worked_catchup_usePokers:
  "worked env s (snd (catchupClients env c excl (Some pokers) s))"
proof -
  let ?s2 = "emit [CatchupFrom (catchupFromVersion env c s) excl] s"
  have w2: "worked env s ?s2" by (rule worked_emit) (simp add: isWork_def)
  have w3: "worked env s (addPatches pokers ps ?s2)" for ps
    by (rule worked_trans[OF w2 worked_addPatches])
  have w4: "worked env s (snd (rowPatchLoop env pokers rs (addPatches pokers ps ?s2)))" for ps rs
    by (rule worked_trans[OF w3 worked_rowPatchLoop])
  show ?thesis
  proof (cases "cs_catchupConfigPatches env (catchupFromVersion env c s) c (cvrStore ?s2)")
    case (Inl e)
    then show ?thesis using w2 by (simp add: catchupClients_def Let_def)
  next
    case (Inr cps)
    let ?rp = "cs_catchupRowPatches env (catchupFromVersion env c s) c excl (cvrStore ?s2)"
    obtain r s3 where rl: "rowPatchLoop env pokers (concat (fst ?rp)) (addPatches pokers (map Plain cps) ?s2) = (r, s3)"
      by (cases "rowPatchLoop env pokers (concat (fst ?rp)) (addPatches pokers (map Plain cps) ?s2)")
    have "worked env s s3" using w4[of "concat (fst ?rp)" "map Plain cps"] rl by simp
    then show ?thesis using Inr rl
      by (auto simp: catchupClients_def Let_def split: option.splits)
  qed
qed

lemma handlerIds_emit [simp]: "handlerIds (emit evs s) = handlerIds s"
  by (simp add: handlerIds_def emit_def)

lemma startPokes_eq: "startPokes v s = (handlerIds s, emit (startEvents v (handlerIds s)) s)"
  by (simp add: startPokes_def handlerIds_def startEvents_def Let_def)

lemma ctl_emit [simp]: "ctl (emit evs s) = ctl s"
  by (simp add: ctl_def emit_def)

lemma cvr_emit [simp]: "cvr (emit evs s) = cvr s"
  by (simp add: emit_def)

lemma cvrStore_emit [simp]: "cvrStore (emit evs s) = cvrStore s"
  by (simp add: emit_def)

lemma pipelines_emit [simp]: "pipelines (emit evs s) = pipelines s"
  by (simp add: emit_def)

lemma endPokes_emit: "endPokes hs s = emit (map EndPoke hs) s"
  by (simp add: endPokes_def)

lemma workedD:
  assumes "worked env s s'"
  obtains w where "trace s' = trace s @ w" "list_all isWork w" "ctl s' = ctl s" "cvr s' = cvr s"
  using assms unfolding worked_def by blast

lemma worked_store: "worked env s s' \<Longrightarrow> updaterClosed env P \<Longrightarrow> P (cvrStore s) \<Longrightarrow> P (cvrStore s')"
  unfolding worked_def by blast

lemma handlerIds_ctl: "ctl s' = ctl s \<Longrightarrow> handlerIds s' = handlerIds s"
  by (simp add: ctl_def handlerIds_def)

lemma catchup_None:
  "catchupClients env c excl None s =
     (case catchupClients env c excl (Some (handlerIds s)) (emit (startEvents (cvr_version c) (handlerIds s)) s) of
        (None, s2) \<Rightarrow> (None, endPokes (handlerIds s) s2)
      | (Some e, s2) \<Rightarrow> (Some e, s2))"
  by (simp add: catchupClients_def startPokes_eq Let_def split: sum.splits prod.splits option.splits)

lemma catchup_standalone_shape:
  "\<exists>w. list_all isWork w \<and> ctl (snd (catchupClients env c excl None s)) = ctl s \<and>
       cvr (snd (catchupClients env c excl None s)) = cvr s \<and>
       trace (snd (catchupClients env c excl None s)) =
         trace s @ startEvents (cvr_version c) (handlerIds s) @ w @
           (case fst (catchupClients env c excl None s) of None \<Rightarrow> map EndPoke (handlerIds s) | Some e \<Rightarrow> [])"
proof -
  let ?s1 = "emit (startEvents (cvr_version c) (handlerIds s)) s"
  obtain r s2 where cc: "catchupClients env c excl (Some (handlerIds s)) ?s1 = (r, s2)"
    by (cases "catchupClients env c excl (Some (handlerIds s)) ?s1")
  have "worked env ?s1 s2" using worked_catchup_usePokers[of env ?s1 c excl "handlerIds s"] cc by simp
  then obtain w where w: "trace s2 = trace ?s1 @ w" "list_all isWork w" "ctl s2 = ctl ?s1" "cvr s2 = cvr ?s1"
    by (rule workedD)
  show ?thesis
    using cc w by (intro exI[of _ w]) (auto simp: catchup_None endPokes_emit trace_emit split: option.splits)
qed

lemma addAndRemoveQueries_shape:
  fixes env :: "('p, 'st) env" and s :: "('p, 'st) service" and c :: CVRSnapshot
    and add rem :: "queryHash list"
  assumes ne: "add \<noteq> [] \<or> rem \<noteq> []"
  defines "tracked \<equiv> map (\<lambda>h. (h, h)) add"
  defines "tq \<equiv> qu_trackQueries env tracked rem (qu_new env c (pl_currentVersion env (pipelines s)) (cvrStore s))"
  defines "hs \<equiv> handlerIds s"
  defines "R \<equiv> addAndRemoveQueries env c add rem s"
  shows "\<exists>w1 tail. list_all isWork w1 \<and> ctl (snd R) = ctl s \<and>
           trace (snd R) = trace s @ TrackQueries tracked rem # startEvents (fst (fst tq)) hs @ w1 @ tail \<and>
           ((tail = [] \<and> fst R \<noteq> None \<and> cvr (snd R) = cvr s) \<or>
            (tail = [DeleteUnreferencedRows] \<and> fst R \<noteq> None \<and> cvr (snd R) = cvr s) \<or>
            (\<exists>w2 e. list_all isWork w2 \<and> tail = DeleteUnreferencedRows # w2 @ [FlushFailed e] \<and>
                     fst R = Some e \<and> cvr (snd R) = cvr s) \<or>
            (\<exists>w2 w3 c' st. list_all isWork w2 \<and> list_all isWork w3 \<and> fst (qu_flush env st) = Inr c' \<and>
                 (\<forall>P. updaterClosed env P \<longrightarrow> P (snd tq) \<longrightarrow> P st) \<and> cvr (snd R) = Some c' \<and>
                 ((tail = DeleteUnreferencedRows # w2 @ Flushed c' # w3 \<and> fst R \<noteq> None) \<or>
                  (tail = DeleteUnreferencedRows # w2 @ Flushed c' # w3 @ map EndPoke hs \<and> fst R = None))))"
proof -
  obtain nv qps st where tqe: "tq = ((nv, qps), st)" by (cases tq) auto
  define s0 where "s0 = emit [TrackQueries tracked rem] (s\<lparr>cvrStore := st\<rparr>)"
  define s1 where "s1 = emit (startEvents nv hs) s0"
  define s2 where "s2 = removeLoop env rem (addPatches hs (map Plain qps) s1)"
  have hs0: "handlerIds s0 = hs" by (simp add: s0_def hs_def handlerIds_def emit_def)
  have sp: "startPokes nv s0 = (hs, s1)" by (simp add: startPokes_eq hs0 s1_def)
  have t1: "trace s1 = trace s @ TrackQueries tracked rem # startEvents nv hs"
    by (simp add: s1_def s0_def trace_emit emit_def)
  have c1: "ctl s1 = ctl s" "cvr s1 = cvr s" "cvrStore s1 = st"
    by (simp_all add: s1_def s0_def ctl_def emit_def)
  have w12: "worked env s1 s2"
    unfolding s2_def by (rule worked_trans[OF worked_addPatches worked_removeLoop])
  obtain r3 s3 where al: "addLoop env c hs add s2 = (r3, s3)" by (cases "addLoop env c hs add s2")
  have w23: "worked env s2 s3" using worked_addLoop[of env s2 c hs add] al by simp
  have w13: "worked env s1 s3" by (rule worked_trans[OF w12 w23])
  obtain w1 where w1: "trace s3 = trace s1 @ w1" "list_all isWork w1" "ctl s3 = ctl s1" "cvr s3 = cvr s1"
    using w13 by (rule workedD)
  have cl3: "\<And>P. updaterClosed env P \<Longrightarrow> P (cvrStore s1) \<Longrightarrow> P (cvrStore s3)"
    using worked_store[OF w13] .
  have Rdef: "R = (case (r3, s3) of
             (Some e, s3) \<Rightarrow> (Some e, s3)
           | (None, s3) \<Rightarrow>
               (case qu_deleteUnreferencedRows env (cvrStore s3) of
                  (Inl e, st') \<Rightarrow> (Some e, emit [DeleteUnreferencedRows] (s3\<lparr>cvrStore := st'\<rparr>))
                | (Inr ps, st') \<Rightarrow>
                    (let s4 = addPatches hs (map Plain ps)
                                (emit [DeleteUnreferencedRows] (s3\<lparr>cvrStore := st'\<rparr>))
                     in case qu_flush env (cvrStore s4) of
                          (Inl e, st'') \<Rightarrow> (Some e, emit [FlushFailed e] (s4\<lparr>cvrStore := st''\<rparr>))
                        | (Inr c', st'') \<Rightarrow>
                            (case catchupClients env c add (Some hs)
                                    (emit [Flushed c'] (s4\<lparr>cvrStore := st'', cvr := Some c'\<rparr>)) of
                               (Some e, s5) \<Rightarrow> (Some e, s5)
                             | (None, s5) \<Rightarrow> (None, endPokes hs s5)))))"
    using ne tqe sp[unfolded s0_def] al
    unfolding R_def addAndRemoveQueries_def tq_def tracked_def s2_def
    by (simp add: Let_def)
  have nv: "fst (fst tq) = nv" and sttq: "snd tq = st" using tqe by simp_all
  show ?thesis
  proof (cases r3)
    case (Some e)
    then have "R = (Some e, s3)" using Rdef by simp
    then show ?thesis using w1 t1 c1 unfolding nv
      by (intro exI[of _ w1] exI[of _ "[]"]) simp
  next
    case None
    obtain du st' where du: "qu_deleteUnreferencedRows env (cvrStore s3) = (du, st')"
      by (cases "qu_deleteUnreferencedRows env (cvrStore s3)")
    have st'cl: "\<And>P. updaterClosed env P \<Longrightarrow> P st \<Longrightarrow> P st'"
    proof -
      fix P assume uc: "updaterClosed env P" and p: "P st"
      have "P (cvrStore s3)" using cl3[OF uc] p c1(3) by simp
      then have "P (snd (qu_deleteUnreferencedRows env (cvrStore s3)))"
        using uc unfolding updaterClosed_def by blast
      then show "P st'" using du by simp
    qed
    show ?thesis
    proof (cases du)
      case (Inl e)
      then have "R = (Some e, emit [DeleteUnreferencedRows] (s3\<lparr>cvrStore := st'\<rparr>))"
        using Rdef None du by simp
      then show ?thesis using w1 t1 c1 unfolding nv
        by (intro exI[of _ w1] exI[of _ "[DeleteUnreferencedRows]"])
           (simp add: trace_emit ctl_def emit_def)
    next
      case (Inr ps)
      define s4 where "s4 = addPatches hs (map Plain ps) (emit [DeleteUnreferencedRows] (s3\<lparr>cvrStore := st'\<rparr>))"
      have t4: "trace s4 = trace s3 @ DeleteUnreferencedRows # patchEvents hs (map Plain ps)"
        by (simp add: s4_def addPatches_emit trace_emit emit_def)
      have c4: "ctl s4 = ctl s" "cvr s4 = cvr s" "cvrStore s4 = st'"
        using w1 c1 by (simp_all add: s4_def addPatches_emit ctl_def emit_def)
      obtain fl st'' where fl: "qu_flush env (cvrStore s4) = (fl, st'')"
        by (cases "qu_flush env (cvrStore s4)")
      have R4: "R = (case fl of
                       Inl e \<Rightarrow> (Some e, emit [FlushFailed e] (s4\<lparr>cvrStore := st''\<rparr>))
                     | Inr c' \<Rightarrow>
                            (case catchupClients env c add (Some hs)
                                    (emit [Flushed c'] (s4\<lparr>cvrStore := st'', cvr := Some c'\<rparr>)) of
                               (Some e, s5) \<Rightarrow> (Some e, s5)
                             | (None, s5) \<Rightarrow> (None, endPokes hs s5)))"
        using Rdef None du Inr fl unfolding s4_def by (simp add: Let_def)
      let ?w2 = "patchEvents hs (map Plain ps)"
      have ww2: "list_all isWork ?w2" by (rule isWork_patchEvents)
      show ?thesis
      proof (cases fl)
        case (Inl e)
        then have Re: "R = (Some e, emit [FlushFailed e] (s4\<lparr>cvrStore := st''\<rparr>))" using R4 by simp
        have "\<exists>w2 e'. list_all isWork w2 \<and>
                 DeleteUnreferencedRows # ?w2 @ [FlushFailed e] = DeleteUnreferencedRows # w2 @ [FlushFailed e'] \<and>
                 fst R = Some e' \<and> cvr (snd R) = cvr s"
          using ww2 Re c4 by (intro exI[of _ ?w2] exI[of _ e]) (simp add: emit_def)
        then show ?thesis using w1 t1 c1 t4 c4 Re unfolding nv
          by (intro exI[of _ w1] exI[of _ "DeleteUnreferencedRows # ?w2 @ [FlushFailed e]"])
             (simp add: trace_emit ctl_def emit_def)
      next
        case (Inr c')
        define s5 where "s5 = emit [Flushed c'] (s4\<lparr>cvrStore := st'', cvr := Some c'\<rparr>)"
        have t5: "trace s5 = trace s4 @ [Flushed c']" by (simp add: s5_def trace_emit emit_def)
        have c5: "ctl s5 = ctl s" "cvr s5 = Some c'"
          using c4 by (simp_all add: s5_def ctl_def emit_def)
        obtain r6 s6 where cc: "catchupClients env c add (Some hs) s5 = (r6, s6)"
          by (cases "catchupClients env c add (Some hs) s5")
        have "worked env s5 s6" using worked_catchup_usePokers[of env s5 c add hs] cc by simp
        then obtain w3 where w3: "trace s6 = trace s5 @ w3" "list_all isWork w3" "ctl s6 = ctl s5" "cvr s6 = cvr s5"
          by (rule workedD)
        have R6: "R = (case r6 of Some e \<Rightarrow> (Some e, s6) | None \<Rightarrow> (None, endPokes hs s6))"
          using R4 Inr cc unfolding s5_def by (simp split: option.splits)
        have flq: "fst (qu_flush env st') = Inr c'" using fl Inr c4 by simp
        have tr: "trace (snd R) = trace s @ TrackQueries tracked rem # startEvents nv hs @ w1 @
                    DeleteUnreferencedRows # ?w2 @ Flushed c' # w3 @ (case r6 of None \<Rightarrow> map EndPoke hs | Some e \<Rightarrow> [])"
          using R6 w3 t5 t4 w1 t1 by (auto simp: endPokes_emit trace_emit split: option.splits)
        have cR: "ctl (snd R) = ctl s" "cvr (snd R) = Some c'"
          using R6 w3 c5 by (auto simp: endPokes_emit split: option.splits)
        have fR: "fst R = r6" using R6 by (auto split: option.splits)
        have last: "\<exists>w2 w3' c'' st0. list_all isWork w2 \<and> list_all isWork w3' \<and> fst (qu_flush env st0) = Inr c'' \<and>
                 (\<forall>P. updaterClosed env P \<longrightarrow> P (snd tq) \<longrightarrow> P st0) \<and> cvr (snd R) = Some c'' \<and>
                 ((DeleteUnreferencedRows # ?w2 @ Flushed c' # w3 @ (case r6 of None \<Rightarrow> map EndPoke hs | Some e \<Rightarrow> [])
                     = DeleteUnreferencedRows # w2 @ Flushed c'' # w3' \<and> fst R \<noteq> None) \<or>
                  (DeleteUnreferencedRows # ?w2 @ Flushed c' # w3 @ (case r6 of None \<Rightarrow> map EndPoke hs | Some e \<Rightarrow> [])
                     = DeleteUnreferencedRows # w2 @ Flushed c'' # w3' @ map EndPoke hs \<and> fst R = None))"
          using ww2 w3(2) flq st'cl cR(2) fR unfolding sttq
          by (intro exI[of _ ?w2] exI[of _ w3] exI[of _ c'] exI[of _ st']) (auto split: option.splits)
        show ?thesis using w1(2) cR(1) tr last unfolding nv
          by (intro exI[of _ w1]
                exI[of _ "DeleteUnreferencedRows # ?w2 @ Flushed c' # w3 @ (case r6 of None \<Rightarrow> map EndPoke hs | Some e \<Rightarrow> [])"])
             simp
      qed
    qed
  qed
qed


lemma advancePipelines_shape:
  fixes env :: "('p, 'st) env" and s :: "('p, 'st) service"
  assumes c: "cvr s = Some c" and ini: "pl_initialized env (pipelines s)"
  defines "R \<equiv> advancePipelines env s"
  defines "hs \<equiv> handlerIds s"
  shows "ctl (snd R) = ctl s \<and>
         ((\<exists>e. fst R = Some e \<and> trace (snd R) = trace s @ [Advance] \<and> cvr (snd R) = cvr s) \<or>
          (\<exists>nv n chs w1 tail. fst (pl_advance env (pipelines s)) = Inr (nv, n, chs) \<and> list_all isWork w1 \<and>
              trace (snd R) = trace s @ Advance #
                 startEvents (qu_updatedVersion env (qu_new env c nv (cvrStore s))) hs @ w1 @ tail \<and>
              ((tail = [] \<and> fst R \<noteq> None \<and> cvr (snd R) = cvr s) \<or>
               (\<exists>e. tail = [FlushFailed e] \<and> fst R = Some e \<and> cvr (snd R) = cvr s) \<or>
               (\<exists>c' st. tail = Flushed c' # map EndPoke hs \<and> fst R = None \<and> cvr (snd R) = Some c' \<and>
                    fst (qu_flush env st) = Inr c' \<and>
                    (\<forall>P. updaterClosed env P \<longrightarrow> P (qu_new env c nv (cvrStore s)) \<longrightarrow> P st)))))"
proof -
  obtain a p where adv: "pl_advance env (pipelines s) = (a, p)" by (cases "pl_advance env (pipelines s)")
  show ?thesis
  proof (cases a)
    case (Inl e)
    then have "R = (Some e, emit [Advance] (s\<lparr>pipelines := p\<rparr>))"
      using c ini adv by (simp add: R_def advancePipelines_def)
    then show ?thesis by (simp add: trace_emit ctl_def emit_def)
  next
    case (Inr x)
    obtain nv n chs where x: "x = (nv, n, chs)" by (cases x) auto
    define st where "st = qu_new env c nv (cvrStore s)"
    define v where "v = qu_updatedVersion env st"
    define s0 where "s0 = emit [Advance] (s\<lparr>pipelines := p, cvrStore := st\<rparr>)"
    define s1 where "s1 = emit (startEvents v hs) s0"
    have hs0: "handlerIds s0 = hs" by (simp add: s0_def hs_def handlerIds_def emit_def)
    have sp: "startPokes v s0 = (hs, s1)" by (simp add: startPokes_eq hs0 s1_def)
    have t1: "trace s1 = trace s @ Advance # startEvents v hs"
      by (simp add: s1_def s0_def trace_emit emit_def)
    have c1: "ctl s1 = ctl s" "cvr s1 = cvr s" "cvrStore s1 = st"
      by (simp_all add: s1_def s0_def ctl_def emit_def)
    obtain r2 s2 where pc: "processChanges env chs hs s1 = (r2, s2)" by (cases "processChanges env chs hs s1")
    have w12: "worked env s1 s2" using worked_processChanges[of env s1 chs hs] pc by simp
    obtain w1 where w1: "trace s2 = trace s1 @ w1" "list_all isWork w1" "ctl s2 = ctl s1" "cvr s2 = cvr s1"
      using w12 by (rule workedD)
    have cl: "\<forall>P. updaterClosed env P \<longrightarrow> P st \<longrightarrow> P (cvrStore s2)"
      using worked_store[OF w12] unfolding c1(3) by blast
    obtain fl st' where fl: "qu_flush env (cvrStore s2) = (fl, st')" by (cases "qu_flush env (cvrStore s2)")
    have Rdef: "R = (case r2 of
                       Some e \<Rightarrow> (Some e, s2)
                     | None \<Rightarrow>
                         (case fl of
                            Inl e \<Rightarrow> (Some e, emit [FlushFailed e] (s2\<lparr>cvrStore := st'\<rparr>))
                          | Inr c' \<Rightarrow> (None, endPokes hs (emit [Flushed c'] (s2\<lparr>cvrStore := st', cvr := Some c'\<rparr>)))))"
      using c ini adv Inr x sp[unfolded s0_def v_def st_def] pc fl
      unfolding R_def advancePipelines_def
      by (auto simp: Let_def split: option.splits sum.splits)
    have adv': "fst (pl_advance env (pipelines s)) = Inr (nv, n, chs)" using adv Inr x by simp
    have ctlR: "ctl (snd R) = ctl s"
      using Rdef w1 c1 by (auto simp: endPokes_emit ctl_def emit_def split: option.splits sum.splits)
    have "\<exists>tail. trace (snd R) = trace s @ Advance # startEvents v hs @ w1 @ tail \<and>
              ((tail = [] \<and> fst R \<noteq> None \<and> cvr (snd R) = cvr s) \<or>
               (\<exists>e. tail = [FlushFailed e] \<and> fst R = Some e \<and> cvr (snd R) = cvr s) \<or>
               (\<exists>c' st0. tail = Flushed c' # map EndPoke hs \<and> fst R = None \<and> cvr (snd R) = Some c' \<and>
                    fst (qu_flush env st0) = Inr c' \<and>
                    (\<forall>P. updaterClosed env P \<longrightarrow> P st \<longrightarrow> P st0)))"
    proof (cases r2)
      case (Some e)
      then show ?thesis using Rdef w1 t1 c1 by (intro exI[of _ "[]"]) simp
    next
      case None
      show ?thesis
      proof (cases fl)
        case (Inl e)
        then show ?thesis using Rdef None w1 t1 c1
          by (intro exI[of _ "[FlushFailed e]"]) (simp add: trace_emit emit_def)
      next
        case (Inr c')
        have "fst (qu_flush env (cvrStore s2)) = Inr c'" using fl Inr by simp
        then have "\<exists>c'' st0. Flushed c' # map EndPoke hs = Flushed c'' # map EndPoke hs \<and> cvr (snd R) = Some c'' \<and>
                    fst (qu_flush env st0) = Inr c'' \<and> (\<forall>P. updaterClosed env P \<longrightarrow> P st \<longrightarrow> P st0)"
          using cl Rdef None Inr
          by (intro exI[of _ c'] exI[of _ "cvrStore s2"]) (simp add: endPokes_emit emit_def)
        moreover have "trace (snd R) = trace s @ Advance # startEvents v hs @ w1 @ Flushed c' # map EndPoke hs"
             "fst R = None"
          using Rdef None Inr w1 t1 by (simp_all add: endPokes_emit trace_emit emit_def)
        ultimately show ?thesis by (intro exI[of _ "Flushed c' # map EndPoke hs"]) auto
      qed
    qed
    then show ?thesis using ctlR adv' w1(2) unfolding v_def st_def by blast
  qed
qed

lemma lastFlushed_append: "lastFlushed cur (xs @ ys) = lastFlushed (lastFlushed cur xs) ys"
  by (induction cur xs rule: lastFlushed.induct) auto

lemma lastFlushed_work: "list_all isWork w \<Longrightarrow> lastFlushed cur w = cur"
  by (induction cur w rule: lastFlushed.induct) (auto simp: isWork_def)

lemma lastFlushed_starts: "lastFlushed cur (startEvents v hs) = cur"
  by (induction hs) (auto simp: startEvents_def)

lemma lastFlushed_ends: "lastFlushed cur (map EndPoke hs) = cur"
  by (induction hs) auto

lemma work_notin:
  assumes "list_all isWork w"
  shows "Flushed c \<notin> set w" "FlushFailed e \<notin> set w" "\<not> list_ex isEndPoke w" "StartPoke h v \<notin> set w"
  using assms by (auto simp: list_all_iff list_ex_iff isWork_def isEndPoke_def split: event.splits)

lemma starts_notin:
  shows "Flushed c \<notin> set (startEvents v hs)" "FlushFailed e \<notin> set (startEvents v hs)"
    "\<not> list_ex isEndPoke (startEvents v hs)"
  by (auto simp: startEvents_def list_ex_iff isEndPoke_def)

lemma ends_notin:
  shows "Flushed c \<notin> set (map EndPoke hs)" "FlushFailed e \<notin> set (map EndPoke hs)"
  by auto

section \<open>The CVR pointer and the flushes\<close>

lemma pff_intro:
  assumes "trace s' = trace s @ evs" "cvr s' = lastFlushed (cvr s) evs"
    "\<And>c. Flushed c \<in> set evs \<Longrightarrow> \<exists>st. fst (cu_flush env st) = Inr c \<or> fst (qu_flush env st) = Inr c"
    "\<And>e. FlushFailed e \<in> set evs \<Longrightarrow>
        r = Some e \<and> last evs = FlushFailed e \<and> cvr s' = lastFlushed (cvr s) (butlast evs) \<and>
        \<not> list_ex isEndPoke evs"
  shows "pointerFollowsFlush env s (r, s')"
  using assms unfolding pointerFollowsFlush_def by (simp add: newEvents_ext Let_def)

lemma pff_quiet:
  assumes "trace s' = trace s @ evs" "cvr s' = cvr s"
    "lastFlushed (cvr s) evs = cvr s" "\<And>c. Flushed c \<notin> set evs" "\<And>e. FlushFailed e \<notin> set evs"
  shows "pointerFollowsFlush env s (r, s')"
  using assms by (intro pff_intro[of _ _ evs]) auto

lemma pff_same: "pointerFollowsFlush env s (r, s)"
  by (rule pff_quiet[of _ _ "[]"]) auto

lemma pff_addAndRemoveQueries: "pointerFollowsFlush env s (addAndRemoveQueries env c add rem s)"
proof (cases "add \<noteq> [] \<or> rem \<noteq> []")
  case False
  then have "addAndRemoveQueries env c add rem s = (Some AssertionFailed, s)"
    by (simp add: addAndRemoveQueries_def)
  then show ?thesis by (simp add: pff_same)
next
  case True
  let ?R = "addAndRemoveQueries env c add rem s"
  let ?tracked = "map (\<lambda>h. (h, h)) add"
  let ?tq = "qu_trackQueries env ?tracked rem (qu_new env c (pl_currentVersion env (pipelines s)) (cvrStore s))"
  let ?hs = "handlerIds s"
  let ?pre = "TrackQueries ?tracked rem # startEvents (fst (fst ?tq)) ?hs"
  have "\<exists>w1 tail. list_all isWork w1 \<and> ctl (snd ?R) = ctl s \<and>
           trace (snd ?R) = trace s @ TrackQueries ?tracked rem # startEvents (fst (fst ?tq)) ?hs @ w1 @ tail \<and>
           ((tail = [] \<and> fst ?R \<noteq> None \<and> cvr (snd ?R) = cvr s) \<or>
            (tail = [DeleteUnreferencedRows] \<and> fst ?R \<noteq> None \<and> cvr (snd ?R) = cvr s) \<or>
            (\<exists>w2 e. list_all isWork w2 \<and> tail = DeleteUnreferencedRows # w2 @ [FlushFailed e] \<and>
                     fst ?R = Some e \<and> cvr (snd ?R) = cvr s) \<or>
            (\<exists>w2 w3 c' st. list_all isWork w2 \<and> list_all isWork w3 \<and> fst (qu_flush env st) = Inr c' \<and>
                 (\<forall>P. updaterClosed env P \<longrightarrow> P (snd ?tq) \<longrightarrow> P st) \<and> cvr (snd ?R) = Some c' \<and>
                 ((tail = DeleteUnreferencedRows # w2 @ Flushed c' # w3 \<and> fst ?R \<noteq> None) \<or>
                  (tail = DeleteUnreferencedRows # w2 @ Flushed c' # w3 @ map EndPoke ?hs \<and> fst ?R = None))))"
    by (rule addAndRemoveQueries_shape[OF True])
  then obtain w1 tail where sh0: "list_all isWork w1 \<and> ctl (snd ?R) = ctl s \<and>
           trace (snd ?R) = trace s @ TrackQueries ?tracked rem # startEvents (fst (fst ?tq)) ?hs @ w1 @ tail \<and>
           ((tail = [] \<and> fst ?R \<noteq> None \<and> cvr (snd ?R) = cvr s) \<or>
            (tail = [DeleteUnreferencedRows] \<and> fst ?R \<noteq> None \<and> cvr (snd ?R) = cvr s) \<or>
            (\<exists>w2 e. list_all isWork w2 \<and> tail = DeleteUnreferencedRows # w2 @ [FlushFailed e] \<and>
                     fst ?R = Some e \<and> cvr (snd ?R) = cvr s) \<or>
            (\<exists>w2 w3 c' st. list_all isWork w2 \<and> list_all isWork w3 \<and> fst (qu_flush env st) = Inr c' \<and>
                 (\<forall>P. updaterClosed env P \<longrightarrow> P (snd ?tq) \<longrightarrow> P st) \<and> cvr (snd ?R) = Some c' \<and>
                 ((tail = DeleteUnreferencedRows # w2 @ Flushed c' # w3 \<and> fst ?R \<noteq> None) \<or>
                  (tail = DeleteUnreferencedRows # w2 @ Flushed c' # w3 @ map EndPoke ?hs \<and> fst ?R = None))))"
    by (elim exE)
  have sh: "list_all isWork w1" "trace (snd ?R) = trace s @ ?pre @ w1 @ tail"
    using sh0 by simp_all
  have sh3: "(tail = [] \<and> fst ?R \<noteq> None \<and> cvr (snd ?R) = cvr s) \<or>
            (tail = [DeleteUnreferencedRows] \<and> fst ?R \<noteq> None \<and> cvr (snd ?R) = cvr s) \<or>
            (\<exists>w2 e. list_all isWork w2 \<and> tail = DeleteUnreferencedRows # w2 @ [FlushFailed e] \<and>
                     fst ?R = Some e \<and> cvr (snd ?R) = cvr s) \<or>
            (\<exists>w2 w3 c' st. list_all isWork w2 \<and> list_all isWork w3 \<and> fst (qu_flush env st) = Inr c' \<and>
                 (\<forall>P. updaterClosed env P \<longrightarrow> P (snd ?tq) \<longrightarrow> P st) \<and> cvr (snd ?R) = Some c' \<and>
                 ((tail = DeleteUnreferencedRows # w2 @ Flushed c' # w3 \<and> fst ?R \<noteq> None) \<or>
                  (tail = DeleteUnreferencedRows # w2 @ Flushed c' # w3 @ map EndPoke ?hs \<and> fst ?R = None)))"
    using sh0 by (elim conjE)
  note simps = lastFlushed_append lastFlushed_work lastFlushed_starts lastFlushed_ends
     work_notin starts_notin
  have pre: "lastFlushed cur (?pre @ w1) = cur" "\<And>c. Flushed c \<notin> set (?pre @ w1)"
       "\<And>e. FlushFailed e \<notin> set (?pre @ w1)" "\<not> list_ex isEndPoke (?pre @ w1)" for cur
    using sh(1) by (simp_all add: simps isEndPoke_def)
  have R: "?R = (fst ?R, snd ?R)" by simp
  consider (a) "tail = []" "cvr (snd ?R) = cvr s"
    | (b) "tail = [DeleteUnreferencedRows]" "cvr (snd ?R) = cvr s"
    | (c) w2 e where "list_all isWork w2" "tail = DeleteUnreferencedRows # w2 @ [FlushFailed e]"
               "fst ?R = Some e" "cvr (snd ?R) = cvr s"
    | (d) w2 w3 c' st t where "list_all isWork w2" "list_all isWork w3" "fst (qu_flush env st) = Inr c'"
           "cvr (snd ?R) = Some c'" "tail = DeleteUnreferencedRows # w2 @ Flushed c' # w3 @ t"
           "t = [] \<or> t = map EndPoke ?hs"
    using sh3 by (elim disjE exE conjE) blast+
  then show ?thesis
  proof cases
    case a
    show ?thesis
      by (subst R, rule pff_quiet[of _ _ "?pre @ w1"]) (use sh a pre in auto)
  next
    case b
    show ?thesis
      by (subst R, rule pff_quiet[of _ _ "?pre @ w1 @ [DeleteUnreferencedRows]"])
         (use sh b pre in \<open>auto simp: lastFlushed_append\<close>)
  next
    case c
    let ?p = "?pre @ w1 @ DeleteUnreferencedRows # w2"
    have q: "lastFlushed cur ?p = cur" "\<not> list_ex isEndPoke ?p" "\<And>c. Flushed c \<notin> set ?p"
         "\<And>e. FlushFailed e \<notin> set ?p" for cur
      using sh(1) c(1) by (simp_all add: simps isEndPoke_def)
    have ev: "?pre @ w1 @ tail = ?p @ [FlushFailed e]" using c(2) by simp
    show ?thesis
    proof (subst R, rule pff_intro[of _ _ "?p @ [FlushFailed e]"])
      show "trace (snd ?R) = trace s @ ?p @ [FlushFailed e]" using sh(2) ev by simp
      show "cvr (snd ?R) = lastFlushed (cvr s) (?p @ [FlushFailed e])"
        using c(4) q(1) by (simp add: lastFlushed_append del: append_Cons)
      show "\<exists>st. fst (cu_flush env st) = Inr c0 \<or> fst (qu_flush env st) = Inr c0"
        if "Flushed c0 \<in> set (?p @ [FlushFailed e])" for c0
        using that q(3) by auto
      show "fst ?R = Some e0 \<and> last (?p @ [FlushFailed e]) = FlushFailed e0 \<and>
            cvr (snd ?R) = lastFlushed (cvr s) (butlast (?p @ [FlushFailed e])) \<and>
            \<not> list_ex isEndPoke (?p @ [FlushFailed e])"
        if "FlushFailed e0 \<in> set (?p @ [FlushFailed e])" for e0
      proof -
        have "e0 = e" using that q(4) by auto
        moreover have "last (?p @ [FlushFailed e]) = FlushFailed e" by (simp only: last_snoc)
        moreover have "butlast (?p @ [FlushFailed e]) = ?p" by (simp only: butlast_snoc)
        moreover have "\<not> list_ex isEndPoke (?p @ [FlushFailed e])"
          using q(2) by (simp add: list_ex_iff isEndPoke_def)
        ultimately show ?thesis using c(3,4) q(1) by simp
      qed
    qed
  next
    case d
    let ?p = "?pre @ w1 @ DeleteUnreferencedRows # w2"
    have q: "lastFlushed cur ?p = cur" "\<And>c. Flushed c \<notin> set ?p"
         "\<And>e. FlushFailed e \<notin> set ?p" for cur
      using sh(1) d(1) by (simp_all add: simps)
    have tl: "lastFlushed cur (w3 @ t) = cur" "\<And>c. Flushed c \<notin> set (w3 @ t)"
         "\<And>e. FlushFailed e \<notin> set (w3 @ t)" for cur
      using d(2,6) by (auto simp: simps)
    have ev: "?pre @ w1 @ tail = ?p @ Flushed c' # (w3 @ t)" using d(5) by simp
    show ?thesis
    proof (subst R, rule pff_intro[of _ _ "?p @ Flushed c' # (w3 @ t)"])
      show "trace (snd ?R) = trace s @ ?p @ Flushed c' # (w3 @ t)" using sh(2) ev by simp
      show "cvr (snd ?R) = lastFlushed (cvr s) (?p @ Flushed c' # (w3 @ t))"
        using d(4) q(1) tl(1) by (simp add: lastFlushed_append del: append_Cons append_assoc)
      show "\<exists>st. fst (cu_flush env st) = Inr c0 \<or> fst (qu_flush env st) = Inr c0"
        if "Flushed c0 \<in> set (?p @ Flushed c' # (w3 @ t))" for c0
      proof -
        have "c0 = c'" using that q(2) tl(2) by (auto simp del: append_Cons append_assoc)
        then show ?thesis using d(3) by blast
      qed
      show "fst ?R = Some e0 \<and> last (?p @ Flushed c' # (w3 @ t)) = FlushFailed e0 \<and>
            cvr (snd ?R) = lastFlushed (cvr s) (butlast (?p @ Flushed c' # (w3 @ t))) \<and>
            \<not> list_ex isEndPoke (?p @ Flushed c' # (w3 @ t))"
        if "FlushFailed e0 \<in> set (?p @ Flushed c' # (w3 @ t))" for e0
        using that q(3) tl(3) by (auto simp del: append_Cons append_assoc)
    qed
  qed
qed


lemma pff_catchup_standalone: "pointerFollowsFlush env s (catchupClients env c excl None s)"
proof -
  let ?R = "catchupClients env c excl None s"
  let ?t = "case fst ?R of None \<Rightarrow> map EndPoke (handlerIds s) | Some e \<Rightarrow> []"
  obtain w where w: "list_all isWork w" "cvr (snd ?R) = cvr s"
     "trace (snd ?R) = trace s @ startEvents (cvr_version c) (handlerIds s) @ w @ ?t"
    using catchup_standalone_shape[of env c excl s] by blast
  have R: "?R = (fst ?R, snd ?R)" by simp
  have t: "lastFlushed cur ?t = cur" "Flushed c0 \<notin> set ?t" "FlushFailed e \<notin> set ?t" for cur c0 e
    by (auto simp: lastFlushed_ends split: option.splits)
  show ?thesis
    by (subst R, rule pff_quiet[of _ _ "startEvents (cvr_version c) (handlerIds s) @ w @ ?t"])
       (use w t in \<open>auto simp: lastFlushed_append lastFlushed_work lastFlushed_starts work_notin starts_notin\<close>)
qed

lemma pff_weaken_result:
  assumes "pointerFollowsFlush env s (r, s')" "r \<noteq> None \<longrightarrow> r' = r"
  shows "pointerFollowsFlush env s (r', s')"
  using assms unfolding pointerFollowsFlush_def by (auto simp: Let_def)

lemma pff_syncQueryPipelineSet: "pointerFollowsFlush env s (syncQueryPipelineSet env s)"
proof (cases "cvr s")
  case None
  then show ?thesis by (simp add: syncQueryPipelineSet_def pff_same)
next
  case (Some c)
  show ?thesis
  proof (cases "pl_initialized env (pipelines s)")
    case False
    then show ?thesis using Some by (simp add: syncQueryPipelineSet_def pff_same)
  next
    case True
    let ?add = "difference (desiredClientQueries c) (pl_addedQueries env (pipelines s))"
    let ?rem = "difference (allClientQueries c) (desiredClientQueries c)"
    let ?inner = "if length ?add > 0 \<or> length ?rem > 0
                  then addAndRemoveQueries env c ?add ?rem s else catchupClients env c [] None s"
    have i: "pointerFollowsFlush env s ?inner"
      by (simp add: pff_addAndRemoveQueries pff_catchup_standalone)
    have eq: "syncQueryPipelineSet env s =
                (case ?inner of (Some e, s') \<Rightarrow> (Some e, s') | (None, s') \<Rightarrow> (assertSynced env s', s'))"
      using Some True by (simp add: syncQueryPipelineSet_def Let_def)
    obtain r s' where in': "?inner = (r, s')" by (cases ?inner)
    have "pointerFollowsFlush env s (r, s')" using i in' by simp
    then have "pointerFollowsFlush env s (case r of Some e \<Rightarrow> Some e | None \<Rightarrow> assertSynced env s', s')"
      by (rule pff_weaken_result) (auto split: option.splits)
    moreover have "syncQueryPipelineSet env s = (case r of Some e \<Rightarrow> Some e | None \<Rightarrow> assertSynced env s', s')"
      unfolding eq in' by (simp split: option.splits)
    ultimately show ?thesis by simp
  qed
qed

lemma pff_applyPatches: "pointerFollowsFlush env s (applyPatches env cid ps c s)"
proof -
  obtain added st where pl: "patchLoop env cid ps [] (cu_new env c (cvrStore s)) = (added, st)"
    by (cases "patchLoop env cid ps [] (cu_new env c (cvrStore s))")
  obtain fl st' where fl: "cu_flush env st = (fl, st')" by (cases "cu_flush env st")
  show ?thesis
  proof (cases fl)
    case (Inl e)
    then have eq: "applyPatches env cid ps c s = (Some e, emit [FlushFailed e] (s\<lparr>cvrStore := st'\<rparr>))"
      using pl fl by (simp add: applyPatches_def)
    show ?thesis unfolding eq
      by (rule pff_intro[of _ _ "[FlushFailed e]"]) (auto simp: trace_emit emit_def isEndPoke_def)
  next
    case (Inr c')
    then have eq: "applyPatches env cid ps c s = (None, emit [Flushed c'] (s\<lparr>cvrStore := st', cvr := Some c'\<rparr>))"
      using pl fl by (simp add: applyPatches_def)
    have "fst (cu_flush env st) = Inr c'" using fl Inr by simp
    then show ?thesis unfolding eq
      by (intro pff_intro[of _ _ "[Flushed c']"]) (auto simp: trace_emit emit_def)
  qed
qed

lemma applyPatches_events:
  "\<exists>ev. trace (snd (applyPatches env cid ps c s)) = trace s @ [ev] \<and>
        ((\<exists>e. ev = FlushFailed e \<and> fst (applyPatches env cid ps c s) = Some e \<and>
               cvr (snd (applyPatches env cid ps c s)) = cvr s) \<or>
         (\<exists>c' st. ev = Flushed c' \<and> fst (applyPatches env cid ps c s) = None \<and>
               cvr (snd (applyPatches env cid ps c s)) = Some c' \<and>
               fst (cu_flush env st) = Inr c' \<and> st = snd (patchLoop env cid ps [] (cu_new env c (cvrStore s))))) \<and>
        ctl (snd (applyPatches env cid ps c s)) = ctl s \<and>
        pipelines (snd (applyPatches env cid ps c s)) = pipelines s"
proof -
  obtain added st where pl: "patchLoop env cid ps [] (cu_new env c (cvrStore s)) = (added, st)"
    by (cases "patchLoop env cid ps [] (cu_new env c (cvrStore s))")
  obtain fl st' where fl: "cu_flush env st = (fl, st')" by (cases "cu_flush env st")
  show ?thesis
  proof (cases fl)
    case (Inl e)
    then have eq: "applyPatches env cid ps c s = (Some e, emit [FlushFailed e] (s\<lparr>cvrStore := st'\<rparr>))"
      using pl fl by (simp add: applyPatches_def)
    show ?thesis unfolding eq by (simp add: trace_emit emit_def ctl_def)
  next
    case (Inr c')
    then have eq: "applyPatches env cid ps c s = (None, emit [Flushed c'] (s\<lparr>cvrStore := st', cvr := Some c'\<rparr>))"
      using pl fl by (simp add: applyPatches_def)
    have "fst (cu_flush env st) = Inr c'" using fl Inr by simp
    then show ?thesis unfolding eq using pl by (simp add: trace_emit emit_def ctl_def)
  qed
qed

lemma pff_after_flush:
  assumes t1: "trace s1 = trace s @ [Flushed c1]" and c1: "cvr s1 = Some c1"
    and f1: "\<exists>st. fst (cu_flush env st) = Inr c1 \<or> fst (qu_flush env st) = Inr c1"
    and p2: "pointerFollowsFlush env s1 (r, s2)"
  shows "pointerFollowsFlush env s (r, s2)"
proof -
  define evs where "evs = newEvents s1 s2"
  have p: "trace s2 = trace s1 @ evs" "cvr s2 = lastFlushed (cvr s1) evs"
     "\<And>c. Flushed c \<in> set evs \<Longrightarrow> \<exists>st. fst (cu_flush env st) = Inr c \<or> fst (qu_flush env st) = Inr c"
     "\<And>e. FlushFailed e \<in> set evs \<Longrightarrow> r = Some e \<and> last evs = FlushFailed e \<and>
          cvr s2 = lastFlushed (cvr s1) (butlast evs) \<and> \<not> list_ex isEndPoke evs"
    using p2 unfolding pointerFollowsFlush_def evs_def Let_def snd_conv fst_conv by blast+
  show ?thesis
  proof (rule pff_intro[of _ _ "Flushed c1 # evs"])
    show "trace s2 = trace s @ Flushed c1 # evs" using p(1) t1 by simp
    show "cvr s2 = lastFlushed (cvr s) (Flushed c1 # evs)" using p(2) c1 by simp
    show "\<exists>st. fst (cu_flush env st) = Inr c \<or> fst (qu_flush env st) = Inr c"
      if "Flushed c \<in> set (Flushed c1 # evs)" for c
      using that f1 p(3) by auto
    show "r = Some e \<and> last (Flushed c1 # evs) = FlushFailed e \<and>
          cvr s2 = lastFlushed (cvr s) (butlast (Flushed c1 # evs)) \<and>
          \<not> list_ex isEndPoke (Flushed c1 # evs)"
      if "FlushFailed e \<in> set (Flushed c1 # evs)" for e
    proof -
      have m: "FlushFailed e \<in> set evs" using that by simp
      then have ne: "evs \<noteq> []" by auto
      show ?thesis using p(4)[OF m] ne c1 by (simp add: isEndPoke_def)
    qed
  qed
qed

lemma pff_patchQueries: "pointerFollowsFlush env s (patchQueries env cid ps s)"
proof (cases "cvr s")
  case None
  then show ?thesis by (simp add: patchQueries_def pff_same)
next
  case (Some c)
  let ?next = "\<lambda>s1. if pl_initialized env (pipelines s1) then syncQueryPipelineSet env s1 else (None, s1)"
  have nx: "pointerFollowsFlush env s1 (?next s1)" for s1
    by (simp add: pff_syncQueryPipelineSet pff_same)
  show ?thesis
  proof (cases "length ps > 0")
    case False
    then have "patchQueries env cid ps s = ?next s" using Some by (simp add: patchQueries_def)
    then show ?thesis using nx by simp
  next
    case True
    let ?A = "applyPatches env cid ps c s"
    obtain ev where ev: "trace (snd ?A) = trace s @ [ev]"
       "(\<exists>e. ev = FlushFailed e \<and> fst ?A = Some e \<and> cvr (snd ?A) = cvr s) \<or>
        (\<exists>c' st. ev = Flushed c' \<and> fst ?A = None \<and> cvr (snd ?A) = Some c' \<and> fst (cu_flush env st) = Inr c' \<and>
            st = snd (patchLoop env cid ps [] (cu_new env c (cvrStore s))))"
      using applyPatches_events[of env cid ps c s] by blast
    from ev(2) show ?thesis
    proof (elim disjE exE conjE)
      fix e assume "ev = FlushFailed e" "fst ?A = Some e" "cvr (snd ?A) = cvr s"
      then have "patchQueries env cid ps s = ?A"
        using Some True by (cases ?A) (simp add: patchQueries_def)
      then show ?thesis using pff_applyPatches by simp
    next
      fix c' st assume a: "ev = Flushed c'" "fst ?A = None" "cvr (snd ?A) = Some c'" "fst (cu_flush env st) = Inr c'"
      then have eq: "patchQueries env cid ps s = ?next (snd ?A)"
        using Some True by (cases ?A) (simp add: patchQueries_def)
      have "pointerFollowsFlush env s (fst (?next (snd ?A)), snd (?next (snd ?A)))"
      proof (rule pff_after_flush[of "snd ?A" s c'])
        show "trace (snd ?A) = trace s @ [Flushed c']" using ev(1) a(1) by simp
        show "cvr (snd ?A) = Some c'" by (rule a(3))
        show "\<exists>st. fst (cu_flush env st) = Inr c' \<or> fst (qu_flush env st) = Inr c'" using a(4) by blast
        show "pointerFollowsFlush env (snd ?A) (fst (?next (snd ?A)), snd (?next (snd ?A)))"
          using nx[of "snd ?A"] by simp
      qed
      then show ?thesis unfolding eq by simp
    qed
  qed
qed

lemma pff_advancePipelines: "pointerFollowsFlush env s (advancePipelines env s)"
proof (cases "cvr s")
  case None
  then show ?thesis by (simp add: advancePipelines_def pff_same)
next
  case (Some c)
  show ?thesis
  proof (cases "pl_initialized env (pipelines s)")
    case False
    then show ?thesis using Some by (simp add: advancePipelines_def pff_same)
  next
    case True
    let ?R = "advancePipelines env s"
    let ?hs = "handlerIds s"
    have R: "?R = (fst ?R, snd ?R)" by simp
    have sh: "(\<exists>e. fst ?R = Some e \<and> trace (snd ?R) = trace s @ [Advance] \<and> cvr (snd ?R) = cvr s) \<or>
          (\<exists>nv n chs w1 tail. fst (pl_advance env (pipelines s)) = Inr (nv, n, chs) \<and> list_all isWork w1 \<and>
              trace (snd ?R) = trace s @ Advance #
                 startEvents (qu_updatedVersion env (qu_new env c nv (cvrStore s))) ?hs @ w1 @ tail \<and>
              ((tail = [] \<and> fst ?R \<noteq> None \<and> cvr (snd ?R) = cvr s) \<or>
               (\<exists>e. tail = [FlushFailed e] \<and> fst ?R = Some e \<and> cvr (snd ?R) = cvr s) \<or>
               (\<exists>c' st. tail = Flushed c' # map EndPoke ?hs \<and> fst ?R = None \<and> cvr (snd ?R) = Some c' \<and>
                    fst (qu_flush env st) = Inr c' \<and>
                    (\<forall>P. updaterClosed env P \<longrightarrow> P (qu_new env c nv (cvrStore s)) \<longrightarrow> P st))))"
      using advancePipelines_shape[OF Some True] by (elim conjE)
    note simps = lastFlushed_append lastFlushed_work lastFlushed_starts lastFlushed_ends
       work_notin starts_notin
    have "(\<exists>e. fst ?R = Some e \<and> trace (snd ?R) = trace s @ [Advance] \<and> cvr (snd ?R) = cvr s) \<or>
          (\<exists>v w1 tail. list_all isWork w1 \<and>
              trace (snd ?R) = trace s @ Advance # startEvents v ?hs @ w1 @ tail \<and>
              ((tail = [] \<and> cvr (snd ?R) = cvr s) \<or>
               (\<exists>e. tail = [FlushFailed e] \<and> fst ?R = Some e \<and> cvr (snd ?R) = cvr s) \<or>
               (\<exists>c' st. tail = Flushed c' # map EndPoke ?hs \<and> cvr (snd ?R) = Some c' \<and>
                    fst (qu_flush env st) = Inr c')))"
      using sh by blast
    then consider (a) "trace (snd ?R) = trace s @ [Advance]" "cvr (snd ?R) = cvr s"
      | (t) v w1 tail where "list_all isWork w1"
           "trace (snd ?R) = trace s @ Advance # startEvents v ?hs @ w1 @ tail"
           "(tail = [] \<and> cvr (snd ?R) = cvr s) \<or>
               (\<exists>e. tail = [FlushFailed e] \<and> fst ?R = Some e \<and> cvr (snd ?R) = cvr s) \<or>
               (\<exists>c' st. tail = Flushed c' # map EndPoke ?hs \<and> cvr (snd ?R) = Some c' \<and>
                    fst (qu_flush env st) = Inr c')"
      by blast
    then consider (a) "trace (snd ?R) = trace s @ [Advance]" "cvr (snd ?R) = cvr s"
      | (b) v w1 where "list_all isWork w1" "trace (snd ?R) = trace s @ (Advance # startEvents v ?hs @ w1)"
           "cvr (snd ?R) = cvr s"
      | (c) v w1 e where "list_all isWork w1"
           "trace (snd ?R) = trace s @ (Advance # startEvents v ?hs @ w1) @ [FlushFailed e]"
           "fst ?R = Some e" "cvr (snd ?R) = cvr s"
      | (d) v w1 c' st where "list_all isWork w1"
           "trace (snd ?R) = trace s @ (Advance # startEvents v ?hs @ w1) @ Flushed c' # map EndPoke ?hs"
           "cvr (snd ?R) = Some c'" "fst (qu_flush env st) = Inr c'"
    proof cases
      case a
      then show ?thesis using that(1) by blast
    next
      case t
      from t(3) show ?thesis
      proof (elim disjE exE conjE)
        assume "tail = []" "cvr (snd ?R) = cvr s"
        then show ?thesis using that(2)[of w1 v] t(1,2) by simp
      next
        fix e assume "tail = [FlushFailed e]" "fst ?R = Some e" "cvr (snd ?R) = cvr s"
        then show ?thesis using that(3)[of w1 v e] t(1,2) by simp
      next
        fix c' st assume "tail = Flushed c' # map EndPoke ?hs" "cvr (snd ?R) = Some c'" "fst (qu_flush env st) = Inr c'"
        then show ?thesis using that(4)[of w1 v c' st] t(1,2) by simp
      qed
    qed
    then show ?thesis
    proof cases
      case a
      show ?thesis by (subst R, rule pff_quiet[of _ _ "[Advance]"]) (use a in auto)
    next
      case b
      show ?thesis
        by (subst R, rule pff_quiet[of _ _ "Advance # startEvents v ?hs @ w1"])
           (use b in \<open>auto simp: simps\<close>)
    next
      case c
      let ?p = "Advance # startEvents v ?hs @ w1"
      have q: "lastFlushed cur ?p = cur" "\<not> list_ex isEndPoke ?p" "\<And>c. Flushed c \<notin> set ?p"
           "\<And>e. FlushFailed e \<notin> set ?p" for cur
        using c(1) by (simp_all add: simps isEndPoke_def)
      show ?thesis
      proof (subst R, rule pff_intro[of _ _ "?p @ [FlushFailed e]"])
        show "trace (snd ?R) = trace s @ ?p @ [FlushFailed e]" using c(2) by simp
        show "cvr (snd ?R) = lastFlushed (cvr s) (?p @ [FlushFailed e])"
          using c(4) q(1) by (simp add: lastFlushed_append del: append_Cons)
        show "\<exists>st. fst (cu_flush env st) = Inr c0 \<or> fst (qu_flush env st) = Inr c0"
          if "Flushed c0 \<in> set (?p @ [FlushFailed e])" for c0
          using that q(3) by auto
        show "fst ?R = Some e0 \<and> last (?p @ [FlushFailed e]) = FlushFailed e0 \<and>
              cvr (snd ?R) = lastFlushed (cvr s) (butlast (?p @ [FlushFailed e])) \<and>
              \<not> list_ex isEndPoke (?p @ [FlushFailed e])"
          if "FlushFailed e0 \<in> set (?p @ [FlushFailed e])" for e0
        proof -
          have "e0 = e" using that q(4) by auto
          moreover have "last (?p @ [FlushFailed e]) = FlushFailed e" by (simp only: last_snoc)
          moreover have "butlast (?p @ [FlushFailed e]) = ?p" by (simp only: butlast_snoc)
          moreover have "\<not> list_ex isEndPoke (?p @ [FlushFailed e])"
            using q(2) by (simp add: list_ex_iff isEndPoke_def)
          ultimately show ?thesis using c(3,4) q(1) by simp
        qed
      qed
    next
      case d
      let ?p = "Advance # startEvents v ?hs @ w1"
      have q: "lastFlushed cur ?p = cur" "\<And>c. Flushed c \<notin> set ?p"
           "\<And>e. FlushFailed e \<notin> set ?p" for cur
        using d(1) by (simp_all add: simps)
      show ?thesis
      proof (subst R, rule pff_intro[of _ _ "?p @ Flushed c' # map EndPoke ?hs"])
        show "trace (snd ?R) = trace s @ ?p @ Flushed c' # map EndPoke ?hs" using d(2) by simp
        show "cvr (snd ?R) = lastFlushed (cvr s) (?p @ Flushed c' # map EndPoke ?hs)"
          using d(3) q(1) by (simp add: lastFlushed_append lastFlushed_ends del: append_Cons)
        show "\<exists>st. fst (cu_flush env st) = Inr c0 \<or> fst (qu_flush env st) = Inr c0"
          if "Flushed c0 \<in> set (?p @ Flushed c' # map EndPoke ?hs)" for c0
        proof -
          have "c0 = c'" using that q(2) by (auto simp del: append_Cons)
          then show ?thesis using d(4) by blast
        qed
        show "fst ?R = Some e0 \<and> last (?p @ Flushed c' # map EndPoke ?hs) = FlushFailed e0 \<and>
              cvr (snd ?R) = lastFlushed (cvr s) (butlast (?p @ Flushed c' # map EndPoke ?hs)) \<and>
              \<not> list_ex isEndPoke (?p @ Flushed c' # map EndPoke ?hs)"
          if "FlushFailed e0 \<in> set (?p @ Flushed c' # map EndPoke ?hs)" for e0
          using that q(3) by (auto simp del: append_Cons)
      qed
    qed
  qed
qed

text \<open>
  C2. The CVR pointer moves only by flushes. Over \<^verbatim>\<open>#advancePipelines\<close>,
  \<^verbatim>\<open>#addAndRemoveQueries\<close> and \<^verbatim>\<open>#patchQueries\<close> alike, the pointer ends at the snapshot
  the last successful flush of the operation returned, and where no flush succeeded at
  the snapshot it held before; when a flush fails, the operation fails with that error at
  once, the pointer holds what it held before that flush, and no poker is ended. The load
  at the start of \<^verbatim>\<open>run\<close> sets the pointer to the snapshot the store returned.
\<close>

theorem cvr_pointer_follows_flush:
  "pointerFollowsFlush env s (advancePipelines env s) \<and>
   pointerFollowsFlush env s (addAndRemoveQueries env c addQueries removeQueries s) \<and>
   pointerFollowsFlush env s (patchQueries env cid desiredQueriesPatch s) \<and>
   cvr (snd (loadCVR env s)) = (case cs_load env (cvrStore s) of Inl e \<Rightarrow> cvr s | Inr c0 \<Rightarrow> Some c0)"
  by (simp add: pff_advancePipelines pff_addAndRemoveQueries pff_patchQueries loadCVR_def split: sum.splits)

theorem cvr_pointer_follows_flush_witness:
  "FlushFailed Unavailable \<in> set (newEvents outageService (snd (advancePipelines specEnv outageService))) \<and>
   fst (advancePipelines specEnv outageService) = Some Unavailable \<and>
   cvr (snd (advancePipelines specEnv outageService)) = Some fooCVR \<and>
   \<not> list_ex isEndPoke (newEvents outageService (snd (advancePipelines specEnv outageService)))"
proof -
  let ?R = "advancePipelines specEnv outageService"
  have h: "FlushFailed Unavailable \<in> set (newEvents outageService (snd ?R))" by code_simp
  have l: "lastFlushed (cvr outageService) (butlast (newEvents outageService (snd ?R))) = Some fooCVR"
    by code_simp
  have "pointerFollowsFlush specEnv outageService ?R"
    using cvr_pointer_follows_flush[of specEnv outageService] by simp
  then show ?thesis using h l unfolding pointerFollowsFlush_def Let_def by metis
qed

section \<open>The reconciler\<close>

lemma set_desiredClientQueries: "set (desiredClientQueries c) = specDesired c"
proof -
  have "map_of (queries c) h = Some q \<Longrightarrow> h \<in> fst ` set (queries c)" for h q
    by (metis domI dom_map_of_conv_image_fst)
  then show ?thesis
    unfolding desiredClientQueries_def specDesired_def isDesired_def
    by (auto split: option.splits)
qed

lemma set_addQueries:
  "set (difference (desiredClientQueries c) hydrated) = specToAdd c (set hydrated)"
  by (auto simp: difference_def specToAdd_def set_desiredClientQueries)

lemma set_removeQueries:
  "set (difference (allClientQueries c) (desiredClientQueries c)) = specToRemove c"
  by (auto simp: difference_def specToRemove_def set_desiredClientQueries allClientQueries_def)

lemma assertSynced_None:
  "assertSynced env s = None \<Longrightarrow>
     \<exists>c. cvr s = Some c \<and> stateVersion (cvr_version c) = pl_currentVersion env (pipelines s)"
  by (auto simp: assertSynced_def split: option.splits if_splits)

text \<open>
  C3. \<^verbatim>\<open>#syncQueryPipelineSet\<close>, with the CVR loaded and the pipeline initialised. The
  queries it adds are the desired queries of the CVR (internal, or desired by some
  client) that the pipeline does not report as hydrated, and the queries it removes are
  the queries of the CVR that are not desired. It runs \<^verbatim>\<open>#addAndRemoveQueries\<close> on the
  two lists when one of the sets is not empty and \<^verbatim>\<open>#catchupClients\<close> otherwise, and
  fails when that fails. Its closing assertion makes it fail unless the state version of
  the CVR is the current version of the pipeline, so when it completes the two are equal.
\<close>

theorem syncQueryPipelineSet_reconciles:
  "cvr s = Some c \<and> pl_initialized env (pipelines s) \<longrightarrow>
     (let hydrated = pl_addedQueries env (pipelines s);
          addQueries = difference (desiredClientQueries c) hydrated;
          removeQueries = difference (allClientQueries c) (desiredClientQueries c);
          inner = (if specToAdd c (set hydrated) \<noteq> {} \<or> specToRemove c \<noteq> {}
                   then addAndRemoveQueries env c addQueries removeQueries s
                   else catchupClients env c [] None s);
          R = syncQueryPipelineSet env s
      in set addQueries = specToAdd c (set hydrated) \<and>
         set removeQueries = specToRemove c \<and>
         snd R = snd inner \<and>
         fst R = (case fst inner of Some e \<Rightarrow> Some e | None \<Rightarrow> assertSynced env (snd inner)) \<and>
         (fst R = None \<longrightarrow>
            (\<exists>c'. cvr (snd R) = Some c' \<and>
                  stateVersion (cvr_version c') = pl_currentVersion env (pipelines (snd R)))))"
proof (intro impI, elim conjE)
  assume c: "cvr s = Some c" and ini: "pl_initialized env (pipelines s)"
  let ?hyd = "pl_addedQueries env (pipelines s)"
  let ?add = "difference (desiredClientQueries c) ?hyd"
  let ?rem = "difference (allClientQueries c) (desiredClientQueries c)"
  let ?inner = "if specToAdd c (set ?hyd) \<noteq> {} \<or> specToRemove c \<noteq> {}
                then addAndRemoveQueries env c ?add ?rem s else catchupClients env c [] None s"
  let ?R = "syncQueryPipelineSet env s"
  have cond: "(length ?add > 0 \<or> length ?rem > 0) = (specToAdd c (set ?hyd) \<noteq> {} \<or> specToRemove c \<noteq> {})"
    unfolding set_addQueries[symmetric] set_removeQueries[symmetric] by simp
  have eq: "?R = (case ?inner of (Some e, s') \<Rightarrow> (Some e, s') | (None, s') \<Rightarrow> (assertSynced env s', s'))"
    using c ini cond by (simp add: syncQueryPipelineSet_def Let_def)
  obtain r s' where i: "?inner = (r, s')" by (cases ?inner)
  have R: "snd ?R = s'" "fst ?R = (case r of Some e \<Rightarrow> Some e | None \<Rightarrow> assertSynced env s')"
    unfolding eq i by (simp_all split: option.splits)
  have post: "fst ?R = None \<longrightarrow>
            (\<exists>c'. cvr (snd ?R) = Some c' \<and>
                  stateVersion (cvr_version c') = pl_currentVersion env (pipelines (snd ?R)))"
    using R assertSynced_None[of env s'] by (auto split: option.splits)
  show "let hydrated = ?hyd; addQueries = difference (desiredClientQueries c) hydrated;
          removeQueries = difference (allClientQueries c) (desiredClientQueries c);
          inner = (if specToAdd c (set hydrated) \<noteq> {} \<or> specToRemove c \<noteq> {}
                   then addAndRemoveQueries env c addQueries removeQueries s
                   else catchupClients env c [] None s);
          R = syncQueryPipelineSet env s
      in set addQueries = specToAdd c (set hydrated) \<and>
         set removeQueries = specToRemove c \<and>
         snd R = snd inner \<and>
         fst R = (case fst inner of Some e \<Rightarrow> Some e | None \<Rightarrow> assertSynced env (snd inner)) \<and>
         (fst R = None \<longrightarrow>
            (\<exists>c'. cvr (snd R) = Some c' \<and>
                  stateVersion (cvr_version c') = pl_currentVersion env (pipelines (snd R))))"
  proof -
    have i1: "snd ?inner = s'" "fst ?inner = r" using i by simp_all
    show ?thesis
      unfolding Let_def i1 using set_addQueries[of c ?hyd] set_removeQueries[of c] R post by simp
  qed
qed

theorem syncQueryPipelineSet_reconciles_witness:
  "cvr unhydratedService = Some fooCVR \<and> pl_initialized specEnv (pipelines unhydratedService) \<and>
   specToAdd fooCVR (set (pl_addedQueries specEnv (pipelines unhydratedService))) = {''query-hash1''} \<and>
   specToRemove fooCVR = {} \<and>
   fst (syncQueryPipelineSet specEnv unhydratedService) = None \<and>
   (\<exists>c'. cvr (snd (syncQueryPipelineSet specEnv unhydratedService)) = Some c' \<and>
         stateVersion (cvr_version c') =
           pl_currentVersion specEnv (pipelines (snd (syncQueryPipelineSet specEnv unhydratedService))))"
proof -
  let ?s = unhydratedService
  let ?hyd = "pl_addedQueries specEnv (pipelines ?s)"
  have h1: "cvr ?s = Some fooCVR" by code_simp
  have h2: "pl_initialized specEnv (pipelines ?s)" by code_simp
  have h3: "set (difference (desiredClientQueries fooCVR) ?hyd) = {''query-hash1''}"
    by code_simp
  have h4: "set (difference (allClientQueries fooCVR) (desiredClientQueries fooCVR)) = {}"
    by code_simp
  have h5: "fst (syncQueryPipelineSet specEnv ?s) = None" by code_simp
  note T = syncQueryPipelineSet_reconciles[of ?s fooCVR specEnv, unfolded Let_def, rule_format, OF conjI[OF h1 h2]]
  have a: "specToAdd fooCVR (set ?hyd) = {''query-hash1''}"
    using T[THEN conjunct1] h3 by (simp only:)
  have b: "specToRemove fooCVR = {}"
    using T[THEN conjunct2, THEN conjunct1] h4 by (simp only:)
  have c: "\<exists>c'. cvr (snd (syncQueryPipelineSet specEnv ?s)) = Some c' \<and>
         stateVersion (cvr_version c') =
           pl_currentVersion specEnv (pipelines (snd (syncQueryPipelineSet specEnv ?s)))"
    using T[THEN conjunct2, THEN conjunct2, THEN conjunct2, THEN conjunct2] h5 by blast
  show ?thesis using h1 h2 a b h5 c by (intro conjI)
qed

section \<open>Hydrating unchanged queries\<close>

lemma hydrateLoop_events:
  "\<exists>n. trace (snd (hydrateLoop env gs s)) =
         trace s @ take n (map addQueryEvent (filter (\<lambda>(h, q). isDesired q \<and> transformationHash q = Some h) gs)) \<and>
       (fst (hydrateLoop env gs s) = None \<longrightarrow>
          trace (snd (hydrateLoop env gs s)) =
            trace s @ map addQueryEvent (filter (\<lambda>(h, q). isDesired q \<and> transformationHash q = Some h) gs)) \<and>
       cvr (snd (hydrateLoop env gs s)) = cvr s \<and> cvrStore (snd (hydrateLoop env gs s)) = cvrStore s \<and>
       ctl (snd (hydrateLoop env gs s)) = ctl s"
proof (induction gs arbitrary: s)
  case Nil
  show ?case by simp
next
  case (Cons g gs)
  obtain h q where g: "g = (h, q)" by (cases g)
  let ?P = "\<lambda>(h, q). isDesired q \<and> transformationHash q = Some h"
  show ?case
  proof (cases "isDesired q \<and> transformationHash q = Some h")
    case False
    then have eq: "hydrateLoop env (g # gs) s = hydrateLoop env gs s"
      unfolding g by (auto simp: isDesired_def)
    have f: "filter ?P (g # gs) = filter ?P gs" using False g by simp
    show ?thesis unfolding eq f by (rule Cons.IH)
  next
    case True
    obtain changes p where aq: "pl_addQuery env h (ast q) (pipelines s) = (changes, p)"
      by (cases "pl_addQuery env h (ast q) (pipelines s)")
    define s1 where "s1 = emit [AddQuery h (ast q)] (s\<lparr>pipelines := p\<rparr>)"
    have f: "filter ?P (g # gs) = g # filter ?P gs" using True g by simp
    have t1: "trace s1 = trace s @ [addQueryEvent g]" "cvr s1 = cvr s" "cvrStore s1 = cvrStore s" "ctl s1 = ctl s"
      by (simp_all add: s1_def emit_def addQueryEvent_def g ctl_def)
    have eq: "hydrateLoop env (g # gs) s =
                (case snd changes of Some e \<Rightarrow> (Some e, s1) | None \<Rightarrow> hydrateLoop env gs s1)"
      using True aq unfolding g s1_def by (auto simp: isDesired_def Let_def)
    show ?thesis
    proof (cases "snd changes")
      case (Some e)
      then have "hydrateLoop env (g # gs) s = (Some e, s1)" using eq by simp
      then show ?thesis unfolding f using t1 by (intro exI[of _ "Suc 0"]) simp
    next
      case None
      then have eq2: "hydrateLoop env (g # gs) s = hydrateLoop env gs s1" using eq by simp
      from Cons.IH[of s1] obtain n where ihc:
        "trace (snd (hydrateLoop env gs s1)) = trace s1 @ take n (map addQueryEvent (filter ?P gs)) \<and>
         (fst (hydrateLoop env gs s1) = None \<longrightarrow>
            trace (snd (hydrateLoop env gs s1)) = trace s1 @ map addQueryEvent (filter ?P gs)) \<and>
         cvr (snd (hydrateLoop env gs s1)) = cvr s1 \<and> cvrStore (snd (hydrateLoop env gs s1)) = cvrStore s1 \<and>
         ctl (snd (hydrateLoop env gs s1)) = ctl s1" ..
      note ih = ihc[THEN conjunct1] ihc[THEN conjunct2, THEN conjunct1]
        ihc[THEN conjunct2, THEN conjunct2, THEN conjunct1]
        ihc[THEN conjunct2, THEN conjunct2, THEN conjunct2, THEN conjunct1]
        ihc[THEN conjunct2, THEN conjunct2, THEN conjunct2, THEN conjunct2]
      show ?thesis unfolding eq2 f using ih t1 by (intro exI[of _ "Suc n"]) simp
    qed
  qed
qed

lemma rehydrated_filter:
  "filter (\<lambda>(h, q). isDesired q \<and> transformationHash q = Some h)
     (filter (\<lambda>(_, q). transformationHash q \<noteq> None) (queries c)) = rehydrated c"
  unfolding rehydrated_def by (auto intro: filter_cong)

lemma hydrateLoop_eq:
  "hydrateLoop env gs s =
     (let qs = filter (\<lambda>(h, q). isDesired q \<and> transformationHash q = Some h) gs
      in case firstThrow env qs (pipelines s) of
           None \<Rightarrow>
             (None, s\<lparr>pipelines := pipeAfter env qs (pipelines s),
                      trace := trace s @ map addQueryEvent qs\<rparr>)
         | Some (k, e) \<Rightarrow>
             (Some e, s\<lparr>pipelines := pipeAfter env (take (Suc k) qs) (pipelines s),
                        trace := trace s @ map addQueryEvent (take (Suc k) qs)\<rparr>))"
proof (induction gs arbitrary: s)
  case Nil
  show ?case by simp
next
  case (Cons g gs)
  obtain h q where g: "g = (h, q)" by (cases g)
  let ?P = "\<lambda>(h, q). isDesired q \<and> transformationHash q = Some h"
  show ?case
  proof (cases "isDesired q \<and> transformationHash q = Some h")
    case False
    then have eq: "hydrateLoop env (g # gs) s = hydrateLoop env gs s"
      unfolding g by (auto simp: isDesired_def)
    have f: "filter ?P (g # gs) = filter ?P gs" using False g by simp
    show ?thesis unfolding eq f by (rule Cons.IH)
  next
    case True
    obtain changes p where aq: "pl_addQuery env h (ast q) (pipelines s) = (changes, p)"
      by (cases "pl_addQuery env h (ast q) (pipelines s)")
    define s1 where "s1 = emit [AddQuery h (ast q)] (s\<lparr>pipelines := p\<rparr>)"
    have f: "filter ?P (g # gs) = g # filter ?P gs" using True g by simp
    have s1: "s1 = s\<lparr>pipelines := p, trace := trace s @ [addQueryEvent g]\<rparr>"
      by (simp add: s1_def emit_def addQueryEvent_def g)
    have eq: "hydrateLoop env (g # gs) s =
                (case snd changes of Some e \<Rightarrow> (Some e, s1) | None \<Rightarrow> hydrateLoop env gs s1)"
      using True aq unfolding g s1_def by (auto simp: isDesired_def Let_def)
    show ?thesis
    proof (cases "snd changes")
      case (Some e)
      then have "hydrateLoop env (g # gs) s = (Some e, s1)" using eq by simp
      then show ?thesis unfolding f Let_def using Some aq by (simp add: g s1)
    next
      case None
      then have eq2: "hydrateLoop env (g # gs) s = hydrateLoop env gs s1" using eq by simp
      have p1: "pipelines s1 = p" "trace s1 = trace s @ [addQueryEvent g]" by (simp_all add: s1)
      show ?thesis
        unfolding eq2 Cons.IH[of s1] f Let_def p1
        using None aq by (auto simp: g s1 split: option.splits)
    qed
  qed
qed

text \<open>
  C6, as the code has it. \<^verbatim>\<open>#hydrateUnchangedQueries\<close> asserts that the CVR is loaded and
  the pipeline initialised. When the state version of the CVR is not the current version
  of the pipeline it does nothing. When the two are equal, it calls \<open>addQuery\<close> for the
  queries that are got, still desired (internal, or desired by some client) and stored
  with a transformation hash equal to their own hash, in the order of the CVR, each call
  on the pipeline the call before left, and makes no other call: the changes the calls
  yield go nowhere. When none of these calls throws it makes all of them and completes.
  When one throws, that call is the last one it makes, and it fails with the error of
  that call. Nothing but the pipeline and the log of calls changes: the CVR pointer, the
  store and the client map are as before.
\<close>

theorem hydrateUnchangedQueries_desired_only:
  "(cvr s = None \<or> \<not> pl_initialized env (pipelines s) \<longrightarrow>
      hydrateUnchangedQueries env s = (Some AssertionFailed, s)) \<and>
   (cvr s = Some c \<and> pl_initialized env (pipelines s) \<longrightarrow>
     (let R = hydrateUnchangedQueries env s; evs = newEvents s (snd R)
      in trace (snd R) = trace s @ evs \<and>
         cvr (snd R) = cvr s \<and> cvrStore (snd R) = cvrStore s \<and> ctl (snd R) = ctl s \<and>
         (stateVersion (cvr_version c) \<noteq> pl_currentVersion env (pipelines s) \<longrightarrow> R = (None, s)) \<and>
         (stateVersion (cvr_version c) = pl_currentVersion env (pipelines s) \<longrightarrow>
            (\<exists>n. evs = take n (map addQueryEvent (rehydrated c))) \<and>
            (fst R = None \<longrightarrow> evs = map addQueryEvent (rehydrated c)) \<and>
            (case firstThrow env (rehydrated c) (pipelines s) of
               None \<Rightarrow>
                 R = (None, s\<lparr>pipelines := pipeAfter env (rehydrated c) (pipelines s),
                              trace := trace s @ map addQueryEvent (rehydrated c)\<rparr>)
             | Some (k, e) \<Rightarrow>
                 R = (Some e,
                      s\<lparr>pipelines := pipeAfter env (take (Suc k) (rehydrated c)) (pipelines s),
                        trace := trace s @ map addQueryEvent (take (Suc k) (rehydrated c))\<rparr>)))))"
proof (intro conjI impI)
  assume "cvr s = None \<or> \<not> pl_initialized env (pipelines s)"
  then show "hydrateUnchangedQueries env s = (Some AssertionFailed, s)"
    by (auto simp: hydrateUnchangedQueries_def split: option.splits)
next
  assume a: "cvr s = Some c \<and> pl_initialized env (pipelines s)"
  then have c: "cvr s = Some c" and ini: "pl_initialized env (pipelines s)" by simp_all
  let ?R = "hydrateUnchangedQueries env s"
  let ?qs = "rehydrated c"
  let ?E = "case firstThrow env ?qs (pipelines s) of
               None \<Rightarrow>
                 ?R = (None, s\<lparr>pipelines := pipeAfter env ?qs (pipelines s),
                              trace := trace s @ map addQueryEvent ?qs\<rparr>)
             | Some (k, e) \<Rightarrow>
                 ?R = (Some e,
                      s\<lparr>pipelines := pipeAfter env (take (Suc k) ?qs) (pipelines s),
                        trace := trace s @ map addQueryEvent (take (Suc k) ?qs)\<rparr>)"
  show "let R = ?R; evs = newEvents s (snd R)
      in trace (snd R) = trace s @ evs \<and>
         cvr (snd R) = cvr s \<and> cvrStore (snd R) = cvrStore s \<and> ctl (snd R) = ctl s \<and>
         (stateVersion (cvr_version c) \<noteq> pl_currentVersion env (pipelines s) \<longrightarrow> R = (None, s)) \<and>
         (stateVersion (cvr_version c) = pl_currentVersion env (pipelines s) \<longrightarrow>
            (\<exists>n. evs = take n (map addQueryEvent (rehydrated c))) \<and>
            (fst R = None \<longrightarrow> evs = map addQueryEvent (rehydrated c)) \<and>
            (case firstThrow env (rehydrated c) (pipelines s) of
               None \<Rightarrow>
                 R = (None, s\<lparr>pipelines := pipeAfter env (rehydrated c) (pipelines s),
                              trace := trace s @ map addQueryEvent (rehydrated c)\<rparr>)
             | Some (k, e) \<Rightarrow>
                 R = (Some e,
                      s\<lparr>pipelines := pipeAfter env (take (Suc k) (rehydrated c)) (pipelines s),
                        trace := trace s @ map addQueryEvent (take (Suc k) (rehydrated c))\<rparr>)))"
  proof (cases "stateVersion (cvr_version c) = pl_currentVersion env (pipelines s)")
    case False
    then have "?R = (None, s)" using c ini by (simp add: hydrateUnchangedQueries_def)
    then show ?thesis using False by (simp add: Let_def newEvents_def)
  next
    case True
    let ?gs = "filter (\<lambda>(_, q). transformationHash q \<noteq> None) (queries c)"
    have eq: "?R = hydrateLoop env ?gs s" using c ini True by (simp add: hydrateUnchangedQueries_def)
    have E: ?E
      unfolding eq hydrateLoop_eq[of env ?gs s] Let_def rehydrated_filter
      by (simp split: option.splits)
    from hydrateLoop_events[of env ?gs s, unfolded rehydrated_filter] obtain n where hlc:
      "trace (snd (hydrateLoop env ?gs s)) = trace s @ take n (map addQueryEvent (rehydrated c)) \<and>
       (fst (hydrateLoop env ?gs s) = None \<longrightarrow>
          trace (snd (hydrateLoop env ?gs s)) = trace s @ map addQueryEvent (rehydrated c)) \<and>
       cvr (snd (hydrateLoop env ?gs s)) = cvr s \<and> cvrStore (snd (hydrateLoop env ?gs s)) = cvrStore s \<and>
       ctl (snd (hydrateLoop env ?gs s)) = ctl s" ..
    note hl = hlc[THEN conjunct1] hlc[THEN conjunct2, THEN conjunct1]
      hlc[THEN conjunct2, THEN conjunct2, THEN conjunct1]
      hlc[THEN conjunct2, THEN conjunct2, THEN conjunct2, THEN conjunct1]
      hlc[THEN conjunct2, THEN conjunct2, THEN conjunct2, THEN conjunct2]
    have ne: "newEvents s (snd ?R) = take n (map addQueryEvent (rehydrated c))"
      unfolding eq using hl(1) by (rule newEvents_ext)
    have ne2: "fst ?R = None \<longrightarrow> newEvents s (snd ?R) = map addQueryEvent (rehydrated c)"
      unfolding eq using hl(2) by (auto intro: newEvents_ext)
    have tr: "trace (snd ?R) = trace s @ newEvents s (snd ?R)"
      unfolding ne unfolding eq by (rule hl(1))
    have fr: "cvr (snd ?R) = cvr s" "cvrStore (snd ?R) = cvrStore s" "ctl (snd ?R) = ctl s"
      unfolding eq by (rule hl(3), rule hl(4), rule hl(5))
    have ex: "\<exists>n. newEvents s (snd ?R) = take n (map addQueryEvent (rehydrated c))"
      using ne by blast
    show ?thesis
      unfolding Let_def using True tr fr ex ne2 E by (intro conjI impI) simp_all
  qed
qed

theorem hydrateUnchangedQueries_desired_only_witness:
  "cvr connectedService = Some fooCVR \<and> pl_initialized specEnv (pipelines connectedService) \<and>
   stateVersion (cvr_version fooCVR) = pl_currentVersion specEnv (pipelines connectedService) \<and>
   firstThrow specEnv (rehydrated fooCVR) (pipelines connectedService) = None \<and>
   hydrateUnchangedQueries specEnv connectedService =
     (None, connectedService
              \<lparr>pipelines := pipeAfter specEnv (rehydrated fooCVR) (pipelines connectedService),
               trace := [AddQuery ''query-hash1'' ISSUES_TITLE_QUERY]\<rparr>) \<and>
   cvr brokenService = Some brokenCVR \<and> pl_initialized specEnv (pipelines brokenService) \<and>
   stateVersion (cvr_version brokenCVR) = pl_currentVersion specEnv (pipelines brokenService) \<and>
   map fst (rehydrated brokenCVR) = [''query-hash1'', ''query-hash3'', ''query-hash2''] \<and>
   firstThrow specEnv (rehydrated brokenCVR) (pipelines brokenService) = Some (1, BadQuery) \<and>
   hydrateUnchangedQueries specEnv brokenService =
     (Some BadQuery,
      brokenService
        \<lparr>pipelines := pipeAfter specEnv (take 2 (rehydrated brokenCVR)) (pipelines brokenService),
         trace := [AddQuery ''query-hash1'' ISSUES_TITLE_QUERY, AddQuery ''query-hash3'' INVALID_QUERY]\<rparr>) \<and>
   p_added (pipeAfter specEnv (take 2 (rehydrated brokenCVR)) (pipelines brokenService)) = [''query-hash1'']"
proof -
  let ?s = connectedService
  have h1: "cvr ?s = Some fooCVR" by code_simp
  have h2: "pl_initialized specEnv (pipelines ?s)" by code_simp
  have h3: "stateVersion (cvr_version fooCVR) = pl_currentVersion specEnv (pipelines ?s)" by code_simp
  have h4: "firstThrow specEnv (rehydrated fooCVR) (pipelines ?s) = None" by code_simp
  have h5: "trace ?s @ map addQueryEvent (rehydrated fooCVR) = [AddQuery ''query-hash1'' ISSUES_TITLE_QUERY]"
    by code_simp
  note T = hydrateUnchangedQueries_desired_only[of ?s specEnv fooCVR, THEN conjunct2,
      unfolded Let_def, rule_format, OF conjI[OF h1 h2]]
  note E = T[THEN conjunct2, THEN conjunct2, THEN conjunct2, THEN conjunct2, THEN conjunct2,
      rule_format, OF h3, THEN conjunct2, THEN conjunct2, unfolded h4 option.case h5]
  let ?b = brokenService
  have b1: "cvr ?b = Some brokenCVR" by code_simp
  have b2: "pl_initialized specEnv (pipelines ?b)" by code_simp
  have b3: "stateVersion (cvr_version brokenCVR) = pl_currentVersion specEnv (pipelines ?b)" by code_simp
  have b4: "firstThrow specEnv (rehydrated brokenCVR) (pipelines ?b) = Some (1, BadQuery)" by code_simp
  have b5: "trace ?b @ map addQueryEvent (take 2 (rehydrated brokenCVR)) =
              [AddQuery ''query-hash1'' ISSUES_TITLE_QUERY, AddQuery ''query-hash3'' INVALID_QUERY]"
    by code_simp
  have b6: "map fst (rehydrated brokenCVR) = [''query-hash1'', ''query-hash3'', ''query-hash2'']" by code_simp
  have b7: "p_added (pipeAfter specEnv (take 2 (rehydrated brokenCVR)) (pipelines ?b)) = [''query-hash1'']"
    by code_simp
  have two: "Suc 1 = 2" by simp
  note U = hydrateUnchangedQueries_desired_only[of ?b specEnv brokenCVR, THEN conjunct2,
      unfolded Let_def, rule_format, OF conjI[OF b1 b2]]
  note F = U[THEN conjunct2, THEN conjunct2, THEN conjunct2, THEN conjunct2, THEN conjunct2,
      rule_format, OF b3, THEN conjunct2, THEN conjunct2, unfolded b4 option.case prod.case b5 two]
  show ?thesis using h1 h2 h3 h4 E b1 b2 b3 b6 b4 F b7 by (intro conjI)
qed

text \<open>The statement of the specification fails where a got query is no longer desired: the stale CVR
  holds \<open>query-hash1\<close> with its own hash as transformation hash, the state versions are
  equal, the call completes, and \<open>addQuery\<close> was not called for the query.\<close>

theorem hydrateUnchangedQueries_counterexample:
  "cvr staleService = Some staleCVR \<and> pl_initialized specEnv (pipelines staleService) \<and>
   stateVersion (cvr_version staleCVR) = pl_currentVersion specEnv (pipelines staleService) \<and>
   map_option transformationHash (map_of (queries staleCVR) ''query-hash1'') = Some (Some ''query-hash1'') \<and>
   fst (hydrateUnchangedQueries specEnv staleService) = None \<and>
   AddQuery ''query-hash1'' ISSUES_TITLE_QUERY \<notin> set (trace (snd (hydrateUnchangedQueries specEnv staleService)))"
  by code_simp

section \<open>The order of versions\<close>

lemma strLess_irrefl: "\<not> strLess a a"
  by (induction a) auto

lemma strLess_trans: "strLess a b \<Longrightarrow> strLess b c \<Longrightarrow> strLess a c"
proof (induction a b arbitrary: c rule: strLess.induct)
  case 1
  then show ?case by simp
next
  case (2 y ys)
  then show ?case by (cases c) auto
next
  case (3 x xs)
  then show ?case by simp
next
  case (4 x xs y ys)
  then show ?case by (cases c) auto
qed

lemma strLess_total: "\<not> strLess a b \<Longrightarrow> \<not> strLess b a \<Longrightarrow> a = b"
proof (induction a b rule: strLess.induct)
  case (4 x xs y ys)
  then show ?case by (cases "x = y") (auto simp: linorder_neq_iff)
qed auto

lemma strLess_asym: "strLess a b \<Longrightarrow> \<not> strLess b a"
  using strLess_trans strLess_irrefl by blast

lemma cmpVersions_refl: "cmpVersions a a = 0"
  by (simp add: cmpVersions_def strLess_irrefl)

lemma cmpVersions_flip: "0 \<le> cmpVersions a b \<Longrightarrow> cmpVersions b a \<le> 0"
  by (auto simp: cmpVersions_def split: if_splits)

lemma cmpVersions_le_iff:
  "cmpVersions a b \<le> 0 \<longleftrightarrow>
     strLess (stateVersion a) (stateVersion b) \<or>
     (stateVersion a = stateVersion b \<and> minorVersion a \<le> minorVersion b)"
  by (auto simp: cmpVersions_def strLess_irrefl dest: strLess_total strLess_asym)

lemma cmpVersions_less_iff:
  "cmpVersions a b < 0 \<longleftrightarrow>
     strLess (stateVersion a) (stateVersion b) \<or>
     (stateVersion a = stateVersion b \<and> minorVersion a < minorVersion b)"
  by (auto simp: cmpVersions_def strLess_irrefl dest: strLess_total strLess_asym)

lemma cmpVersions_trans: "cmpVersions a b \<le> 0 \<Longrightarrow> cmpVersions b c \<le> 0 \<Longrightarrow> cmpVersions a c \<le> 0"
  unfolding cmpVersions_le_iff by (auto dest: strLess_trans)

lemma cmpVersions_less_le: "cmpVersions a b < 0 \<Longrightarrow> cmpVersions a b \<le> 0"
  by simp

lemma cmpVersions_eq0: "cmpVersions a b = 0 \<longleftrightarrow> a = b"
proof
  assume z: "cmpVersions a b = 0"
  then have "cmpVersions a b \<le> 0" "cmpVersions b a \<le> 0" by (simp_all add: cmpVersions_flip)
  then have "stateVersion a = stateVersion b \<and> minorVersion a = minorVersion b"
    unfolding cmpVersions_le_iff by (auto dest: strLess_asym simp: strLess_irrefl)
  then show "a = b" by simp
qed (simp add: cmpVersions_refl)

lemma least_foldl:
  "foldl (\<lambda>a b. if cmpVersions a b < 0 then a else b) v0 vs \<in> set (v0 # vs) \<and>
   (\<forall>v \<in> set (v0 # vs). cmpVersions (foldl (\<lambda>a b. if cmpVersions a b < 0 then a else b) v0 vs) v \<le> 0)"
proof (induction vs rule: rev_induct)
  case Nil
  show ?case by (simp add: cmpVersions_refl)
next
  case (snoc x xs)
  let ?m = "foldl (\<lambda>a b. if cmpVersions a b < 0 then a else b) v0 xs"
  have mem: "?m \<in> set (v0 # xs)" and le: "\<forall>v \<in> set (v0 # xs). cmpVersions ?m v \<le> 0"
    using snoc by blast+
  show ?case
  proof (cases "cmpVersions ?m x < 0")
    case True
    then show ?thesis using mem le by auto
  next
    case False
    then have xm: "cmpVersions x ?m \<le> 0" by (simp add: cmpVersions_flip)
    have "\<forall>v \<in> set (v0 # xs). cmpVersions x v \<le> 0"
      using le xm cmpVersions_trans by blast
    then show ?thesis using False by (auto simp: cmpVersions_refl)
  qed
qed

section \<open>Catching clients up\<close>

lemma emit_emit: "emit b (emit a s) = emit (a @ b) s"
  by (simp add: emit_def)

lemma emit_Nil: "emit [] s = s"
  by (simp add: emit_def)

lemma patchEvents_Cons: "patchEvents pokers (p # ps) = map (\<lambda>h. AddPatch h p) pokers @ patchEvents pokers ps"
  by (simp add: patchEvents_def)

lemma patchEvents_append: "patchEvents pokers (ps @ qs) = patchEvents pokers ps @ patchEvents pokers qs"
  by (simp add: patchEvents_def)

lemma addPatches_patchEvents: "addPatches pokers ps s = emit (patchEvents pokers ps) s"
  by (simp add: addPatches_def patchEvents_def)

lemma rowPatchLoop_materialise:
  "rowPatchLoop env pokers rs s =
     (snd (materialise env (pipelines s) rs),
      emit (patchEvents pokers (fst (materialise env (pipelines s) rs))) s)"
proof (induction rs arbitrary: s)
  case Nil
  show ?case by (simp add: patchEvents_def emit_Nil)
next
  case (Cons r rs)
  show ?case
  proof (cases "rowPatchOf env (pipelines s) r")
    case (Inl e)
    then have "rowPatchLoop env pokers (r # rs) s = (Some e, s)"
      by (auto simp: rowPatchOf_def Let_def split: option.splits)
    then show ?thesis using Inl by (simp add: patchEvents_def emit_Nil)
  next
    case (Inr pp)
    then have "rowPatchLoop env pokers (r # rs) s = rowPatchLoop env pokers rs (emit (patchEvents pokers [pp]) s)"
      by (auto simp: rowPatchOf_def Let_def addPatches_patchEvents split: option.splits)
    then show ?thesis using Inr
      by (simp add: Cons.IH emit_emit patchEvents_Cons patchEvents_def)
  qed
qed

lemma patchesTo_append: "patchesTo h (xs @ ys) = patchesTo h xs @ patchesTo h ys"
  by (simp add: patchesTo_def)

lemma patchesTo_one: "distinct pokers \<Longrightarrow> h \<in> set pokers \<Longrightarrow> patchesTo h (map (\<lambda>h. AddPatch h p) pokers) = [p]"
  by (induction pokers) (auto simp: patchesTo_def)

lemma patchesTo_patchEvents:
  "distinct pokers \<Longrightarrow> h \<in> set pokers \<Longrightarrow> patchesTo h (patchEvents pokers ps) = ps"
  by (induction ps) (simp_all add: patchEvents_Cons patchesTo_append patchesTo_one, simp add: patchEvents_def patchesTo_def)

lemma patchesTo_starts: "patchesTo h (startEvents v hs) = []"
  by (induction hs) (auto simp: patchesTo_def startEvents_def)

lemma patchesTo_ends: "patchesTo h (map EndPoke hs) = []"
  by (induction hs) (auto simp: patchesTo_def)

lemma patchesTo_catchup: "patchesTo h (CatchupFrom v excl # evs) = patchesTo h evs"
  by (simp add: patchesTo_def)

lemma patchesTo_Nil: "patchesTo h [] = []"
  by (simp add: patchesTo_def)

lemma newEvents_emit: "newEvents s (emit evs s) = evs"
  by (simp add: newEvents_def emit_def)

lemma catchupClients_eq:
  fixes env :: "('p, 'st) env" and s :: "('p, 'st) service" and usePokers :: "nat list option"
    and c :: CVRSnapshot and excl :: "queryHash list"
  defines "pokers \<equiv> (case usePokers of Some ps \<Rightarrow> ps | None \<Rightarrow> handlerIds s)"
      and "starts \<equiv> (case usePokers of Some ps \<Rightarrow> [] | None \<Rightarrow> startEvents (cvr_version c) (handlerIds s))"
  defines "from \<equiv> catchupFromVersion env c (emit starts s)"
  defines "cfg \<equiv> cs_catchupConfigPatches env from c (cvrStore s)"
      and "rows \<equiv> cs_catchupRowPatches env from c excl (cvrStore s)"
  defines "m \<equiv> materialise env (pipelines s) (concat (fst rows))"
  defines "sent \<equiv> (case cfg of Inl e \<Rightarrow> [] | Inr cps \<Rightarrow> map Plain cps @ fst m)"
      and "err \<equiv> (case cfg of Inl e \<Rightarrow> Some e | Inr cps \<Rightarrow> (case snd m of Some e \<Rightarrow> Some e | None \<Rightarrow> snd rows))"
  shows "catchupClients env c excl usePokers s =
           (err, emit (starts @ CatchupFrom from excl # patchEvents pokers sent @
                        (if usePokers = None \<and> err = None then map EndPoke pokers else [])) s)"
proof -
  define s1 where "s1 = emit starts s"
  define s2 where "s2 = emit [CatchupFrom from excl] s1"
  have sp: "(case usePokers of Some ps \<Rightarrow> (ps, s) | None \<Rightarrow> startPokes (cvr_version c) s) = (pokers, s1)"
    unfolding pokers_def starts_def s1_def
    by (cases usePokers) (simp_all add: startPokes_eq emit_Nil)
  have st: "cvrStore s2 = cvrStore s" "pipelines s2 = pipelines s"
    by (simp_all add: s2_def s1_def emit_def)
  have s2e: "s2 = emit (starts @ [CatchupFrom from excl]) s"
    by (simp add: s2_def s1_def emit_emit)
  have cc: "catchupClients env c excl usePokers s =
          (case cfg of
             Inl e \<Rightarrow> (Some e, s2)
           | Inr configPatches \<Rightarrow>
               (case rowPatchLoop env pokers (concat (fst rows)) (addPatches pokers (map Plain configPatches) s2) of
                  (Some e, s3) \<Rightarrow> (Some e, s3)
                | (None, s3) \<Rightarrow>
                    (case snd rows of
                       Some e \<Rightarrow> (Some e, s3)
                     | None \<Rightarrow> (None, if usePokers = None then endPokes pokers s3 else s3))))"
    unfolding catchupClients_def sp Let_def prod.case
    unfolding s2_def[symmetric] from_def[unfolded s1_def[symmetric], symmetric] s2_def[symmetric] st
      cfg_def[symmetric] rows_def[symmetric]
    by (rule refl)
  show ?thesis
  proof (cases cfg)
    case (Inl e)
    then show ?thesis unfolding cc sent_def err_def by (simp add: s2e patchEvents_def)
  next
    case (Inr cps)
    have rl: "rowPatchLoop env pokers (concat (fst rows)) (addPatches pokers (map Plain cps) s2) =
                (snd m, emit (starts @ CatchupFrom from excl # patchEvents pokers (map Plain cps @ fst m)) s)"
      unfolding rowPatchLoop_materialise addPatches_patchEvents
      by (simp add: emit_emit st m_def s2e patchEvents_append emit_def)
    show ?thesis
    proof (cases "snd m")
      case (Some e)
      then show ?thesis unfolding cc sent_def err_def using Inr rl by simp
    next
      case None
      then show ?thesis unfolding cc sent_def err_def using Inr rl
        by (cases "snd rows") (simp_all add: endPokes_def emit_emit)
    qed
  qed
qed

text \<open>
  C7, as the code has it. \<^verbatim>\<open>#catchupClients\<close> takes one version for all clients: the
  least of \<open>cvr.version\<close> and the \<open>version()\<close> of every connected client. It reads the
  config patches and the row patches of the store from that one version, and hands each
  of them to every poker (the pokers passed in, else one poker started on every
  connected client at \<open>cvr.version\<close>), whatever that client has acknowledged: first the
  config patches, then the row patches, each row patch with the version of its record, a
  record without reference counts as a delete and one with reference counts as a put of
  the row \<open>pipeline.getRow\<close> returns. The first record whose row the pipeline lacks ends
  the catch-up with an error, after the patches before it; so does a failing read. The
  pokers are ended only when the catch-up started them and completes. Nothing but the
  log of calls changes.
\<close>

theorem catchupClients_one_range:
  "let pokers = (case usePokers of Some ps \<Rightarrow> ps | None \<Rightarrow> handlerIds s);
       starts = (case usePokers of Some ps \<Rightarrow> [] | None \<Rightarrow> startEvents (cvr_version c) (handlerIds s));
       versions = map (\<lambda>(_, h). ch_version env h (trace s @ starts)) (clients s);
       from = catchupFromVersion env c (emit starts s);
       cfg = cs_catchupConfigPatches env from c (cvrStore s);
       rows = cs_catchupRowPatches env from c excl (cvrStore s);
       m = materialise env (pipelines s) (concat (fst rows));
       sent = (case cfg of Inl e \<Rightarrow> [] | Inr cps \<Rightarrow> map Plain cps @ fst m);
       err = (case cfg of Inl e \<Rightarrow> Some e | Inr cps \<Rightarrow> (case snd m of Some e \<Rightarrow> Some e | None \<Rightarrow> snd rows));
       R = catchupClients env c excl usePokers s
   in from \<in> set (cvr_version c # versions) \<and>
      (\<forall>v \<in> set (cvr_version c # versions). cmpVersions from v \<le> 0) \<and>
      fst R = err \<and>
      snd R = emit (starts @ CatchupFrom from excl # patchEvents pokers sent @
                     (if usePokers = None \<and> err = None then map EndPoke pokers else [])) s \<and>
      (distinct pokers \<longrightarrow> (\<forall>h \<in> set pokers. patchesTo h (newEvents s (snd R)) = sent))"
proof -
  define pokers where "pokers = (case usePokers of Some ps \<Rightarrow> ps | None \<Rightarrow> handlerIds s)"
  define starts where "starts = (case usePokers of Some ps \<Rightarrow> [] | None \<Rightarrow> startEvents (cvr_version c) (handlerIds s))"
  define versions where "versions = map (\<lambda>(_, h). ch_version env h (trace s @ starts)) (clients s)"
  define "from" where "from = catchupFromVersion env c (emit starts s)"
  define cfg where "cfg = cs_catchupConfigPatches env from c (cvrStore s)"
  define rows where "rows = cs_catchupRowPatches env from c excl (cvrStore s)"
  define m where "m = materialise env (pipelines s) (concat (fst rows))"
  define sent where "sent = (case cfg of Inl e \<Rightarrow> [] | Inr cps \<Rightarrow> map Plain cps @ fst m)"
  define err where "err = (case cfg of Inl e \<Rightarrow> Some e | Inr cps \<Rightarrow> (case snd m of Some e \<Rightarrow> Some e | None \<Rightarrow> snd rows))"
  define tl where "tl = (if usePokers = None \<and> err = None then map EndPoke pokers else [])"
  have R: "catchupClients env c excl usePokers s =
             (err, emit (starts @ CatchupFrom from excl # patchEvents pokers sent @ tl) s)"
    unfolding pokers_def starts_def from_def cfg_def rows_def m_def sent_def err_def tl_def
    by (rule catchupClients_eq)
  have fr: "from = foldl (\<lambda>a b. if cmpVersions a b < 0 then a else b) (cvr_version c) versions"
    unfolding from_def versions_def catchupFromVersion_def by (simp add: emit_def)
  have a: "from \<in> set (cvr_version c # versions)"
    unfolding fr using least_foldl[of "cvr_version c" versions] by blast
  have b: "\<forall>v \<in> set (cvr_version c # versions). cmpVersions from v \<le> 0"
    unfolding fr using least_foldl[of "cvr_version c" versions] by blast
  have tl0: "patchesTo h tl = []" for h
    unfolding tl_def by (simp add: patchesTo_ends patchesTo_Nil)
  have e: "distinct pokers \<longrightarrow> (\<forall>h \<in> set pokers.
             patchesTo h (newEvents s (snd (catchupClients env c excl usePokers s))) = sent)"
    unfolding R
    by (simp add: newEvents_emit patchesTo_append patchesTo_catchup patchesTo_patchEvents tl0 starts_def
          patchesTo_starts patchesTo_Nil split: option.splits)
  have c: "fst (catchupClients env c excl usePokers s) = err" unfolding R by simp
  have d: "snd (catchupClients env c excl usePokers s) =
             emit (starts @ CatchupFrom from excl # patchEvents pokers sent @ tl) s" unfolding R by simp
  show ?thesis
    unfolding Let_def
    unfolding pokers_def[symmetric] starts_def[symmetric]
    unfolding versions_def[symmetric] from_def[symmetric]
    unfolding cfg_def[symmetric] rows_def[symmetric]
    unfolding m_def[symmetric]
    unfolding sent_def[symmetric] err_def[symmetric]
    unfolding tl_def[symmetric]
    using a b c d e by (intro conjI)
qed

theorem catchupClients_one_range_witness:
  "handlerIds twoClientService = [0, 1] \<and>
   catchupFromVersion specEnv fooCVR
     (emit (startEvents (cvr_version fooCVR) [0, 1]) twoClientService) = \<lparr>stateVersion = ''1xz'', minorVersion = 0\<rparr> \<and>
   fst (catchupClients specEnv fooCVR [] None twoClientService) = None \<and>
   patchesTo 0 (newEvents twoClientService (snd (catchupClients specEnv fooCVR [] None twoClientService))) =
     [Plain (PutQuery ''query-hash1'' ISSUES_TITLE_QUERY),
      PatchToVersion
        (PutRow \<lparr>schema = [], table = ''issues'', rowKey = [(''id'', JStr ''1'')]\<rparr>
           (snd (issueRow ''1'' ''parent issue foo'' 9007199254740991 ''1a0'')))
        \<lparr>stateVersion = ''1xz'', minorVersion = 1\<rparr>] \<and>
   patchesTo 1 (newEvents twoClientService (snd (catchupClients specEnv fooCVR [] None twoClientService))) =
   patchesTo 0 (newEvents twoClientService (snd (catchupClients specEnv fooCVR [] None twoClientService)))"
proof -
  let ?s = twoClientService
  have h: "handlerIds ?s = [0, 1]" by code_simp
  have f: "catchupFromVersion specEnv fooCVR (emit (startEvents (cvr_version fooCVR) [0, 1]) ?s) =
             \<lparr>stateVersion = ''1xz'', minorVersion = 0\<rparr>" by code_simp
  have cfg: "cs_catchupConfigPatches specEnv \<lparr>stateVersion = ''1xz'', minorVersion = 0\<rparr> fooCVR (cvrStore ?s) =
               Inr [PutQuery ''query-hash1'' ISSUES_TITLE_QUERY]" by code_simp
  have m: "materialise specEnv (pipelines ?s)
             (concat (fst (cs_catchupRowPatches specEnv \<lparr>stateVersion = ''1xz'', minorVersion = 0\<rparr> fooCVR [] (cvrStore ?s)))) =
           ([PatchToVersion
              (PutRow \<lparr>schema = [], table = ''issues'', rowKey = [(''id'', JStr ''1'')]\<rparr>
                 (snd (issueRow ''1'' ''parent issue foo'' 9007199254740991 ''1a0'')))
              \<lparr>stateVersion = ''1xz'', minorVersion = 1\<rparr>], None)" by code_simp
  have r: "snd (cs_catchupRowPatches specEnv \<lparr>stateVersion = ''1xz'', minorVersion = 0\<rparr> fooCVR [] (cvrStore ?s)) = None"
    by code_simp
  note T = catchupClients_one_range[where usePokers=None and s="?s" and c=fooCVR and env=specEnv and excl="[]", unfolded Let_def option.case h f cfg m r sum.case fst_conv snd_conv]
  have d: "distinct [0::nat, 1]" by simp
  have c3: "fst (catchupClients specEnv fooCVR [] None ?s) = None"
    using T[THEN conjunct2, THEN conjunct2, THEN conjunct1] by simp
  note P = T[THEN conjunct2, THEN conjunct2, THEN conjunct2, THEN conjunct2, rule_format, OF d]
  have p0: "patchesTo 0 (newEvents ?s (snd (catchupClients specEnv fooCVR [] None ?s))) =
     [Plain (PutQuery ''query-hash1'' ISSUES_TITLE_QUERY),
      PatchToVersion
        (PutRow \<lparr>schema = [], table = ''issues'', rowKey = [(''id'', JStr ''1'')]\<rparr>
           (snd (issueRow ''1'' ''parent issue foo'' 9007199254740991 ''1a0'')))
        \<lparr>stateVersion = ''1xz'', minorVersion = 1\<rparr>]"
    using P[of 0] by simp
  have p1: "patchesTo 1 (newEvents ?s (snd (catchupClients specEnv fooCVR [] None ?s))) =
     [Plain (PutQuery ''query-hash1'' ISSUES_TITLE_QUERY),
      PatchToVersion
        (PutRow \<lparr>schema = [], table = ''issues'', rowKey = [(''id'', JStr ''1'')]\<rparr>
           (snd (issueRow ''1'' ''parent issue foo'' 9007199254740991 ''1a0'')))
        \<lparr>stateVersion = ''1xz'', minorVersion = 1\<rparr>]"
    using P[of 1] by simp
  show ?thesis using h f c3 p0 p1 by (simp only: simp_thms)
qed

text \<open>The statement of the specification fails on a client that is already at \<open>cvr.version\<close>: \<open>foo\<close>
  has acknowledged \<open>1xz:02\<close>, the version of the CVR, \<open>bar\<close> is behind, and the poker of
  \<open>foo\<close> is handed the config patch and the row patch all the same.\<close>

theorem catchupClients_counterexample:
  "map_of (clients twoClientService) ''foo'' = Some fooHandler \<and>
   ch_version specEnv fooHandler (trace twoClientService) = cvr_version fooCVR \<and>
   cmpVersions (ch_version specEnv barHandler (trace twoClientService)) (cvr_version fooCVR) < 0 \<and>
   fst (catchupClients specEnv fooCVR [] None twoClientService) = None \<and>
   patchesTo (hid fooHandler) (trace (snd (catchupClients specEnv fooCVR [] None twoClientService))) =
     [Plain (PutQuery ''query-hash1'' ISSUES_TITLE_QUERY),
      PatchToVersion
        (PutRow \<lparr>schema = [], table = ''issues'', rowKey = [(''id'', JStr ''1'')]\<rparr>
           (snd (issueRow ''1'' ''parent issue foo'' 9007199254740991 ''1a0'')))
        \<lparr>stateVersion = ''1xz'', minorVersion = 1\<rparr>]"
  by code_simp

section \<open>The connection lifecycle\<close>

lemma ctl_catchup_standalone: "ctl (snd (catchupClients env c excl None s)) = ctl s"
  using catchup_standalone_shape[of env c excl s] by blast

lemma ctl_addAndRemoveQueries: "ctl (snd (addAndRemoveQueries env c add rem s)) = ctl s"
proof (cases "add \<noteq> [] \<or> rem \<noteq> []")
  case True
  from addAndRemoveQueries_shape[OF True, of env c s] show ?thesis by blast
next
  case False
  then show ?thesis by (simp add: addAndRemoveQueries_def)
qed

lemma ctl_syncQueryPipelineSet: "ctl (snd (syncQueryPipelineSet env s)) = ctl s"
proof (cases "cvr s")
  case None
  then show ?thesis by (simp add: syncQueryPipelineSet_def)
next
  case (Some c)
  show ?thesis
  proof (cases "pl_initialized env (pipelines s)")
    case False
    then show ?thesis using Some by (simp add: syncQueryPipelineSet_def)
  next
    case True
    let ?add = "difference (desiredClientQueries c) (pl_addedQueries env (pipelines s))"
    let ?rem = "difference (allClientQueries c) (desiredClientQueries c)"
    let ?A = "if length ?add > 0 \<or> length ?rem > 0
              then addAndRemoveQueries env c ?add ?rem s else catchupClients env c [] None s"
    have a: "ctl (snd ?A) = ctl s"
      by (simp add: ctl_addAndRemoveQueries ctl_catchup_standalone)
    have "snd (syncQueryPipelineSet env s) = snd ?A"
      using Some True by (cases ?A) (auto simp: syncQueryPipelineSet_def Let_def split: option.splits)
    then show ?thesis using a by simp
  qed
qed

lemma ctl_applyPatches: "ctl (snd (applyPatches env cid ps c s)) = ctl s"
  by (auto simp: applyPatches_def Let_def ctl_def emit_def split: prod.splits sum.splits)

lemma ctl_patchQueries: "ctl (snd (patchQueries env cid ps s)) = ctl s"
proof (cases "cvr s")
  case None
  then show ?thesis by (simp add: patchQueries_def)
next
  case (Some c)
  let ?A = "if length ps > 0 then applyPatches env cid ps c s else (None, s)"
  have a: "ctl (snd ?A) = ctl s" by (simp add: ctl_applyPatches)
  show ?thesis
  proof (cases "fst ?A")
    case (Some e)
    then have "snd (patchQueries env cid ps s) = snd ?A"
      using \<open>cvr s = Some c\<close> by (cases ?A) (simp add: patchQueries_def)
    then show ?thesis using a by simp
  next
    case None
    then have "snd (patchQueries env cid ps s) =
                 snd (if pl_initialized env (pipelines (snd ?A)) then syncQueryPipelineSet env (snd ?A) else (None, snd ?A))"
      using \<open>cvr s = Some c\<close> by (cases ?A) (simp add: patchQueries_def)
    then show ?thesis using a by (simp add: ctl_syncQueryPipelineSet)
  qed
qed

lemma clients_ctl: "ctl s' = ctl s \<Longrightarrow> clients s' = clients s"
  by (simp add: ctl_def)

lemma clients_clearIdleTimeout: "clients (clearIdleTimeout s) = clients s"
  by (simp add: clearIdleTimeout_def split: option.splits)

lemma initConnection_clients:
  "clients (snd (initConnection env ctx msg s)) =
     AList.update (ctx_clientID ctx)
       \<lparr>hid = nextObj s, h_clientID = ctx_clientID ctx, wsID = ctx_wsID ctx, baseCookie = ctx_baseCookie ctx\<rparr>
       (clients s)"
proof -
  let ?nc = "\<lparr>hid = nextObj s, h_clientID = ctx_clientID ctx, wsID = ctx_wsID ctx, baseCookie = ctx_baseCookie ctx\<rparr>"
  let ?s0 = "s\<lparr>nextObj := Suc (nextObj s)\<rparr>"
  let ?s1 = "case map_of (clients ?s0) (ctx_clientID ctx) of None \<Rightarrow> ?s0 | Some old \<Rightarrow> emit [CloseClient (hid old)] ?s0"
  let ?s2 = "?s1\<lparr>clients := AList.update (ctx_clientID ctx) ?nc (clients ?s1)\<rparr>"
  have c1: "clients ?s1 = clients s" by (simp add: emit_def split: option.splits)
  have c2: "clients ?s2 = AList.update (ctx_clientID ctx) ?nc (clients s)" using c1 by simp
  obtain r s3 where pq: "patchQueries env (ctx_clientID ctx) msg ?s2 = (r, s3)"
    by (cases "patchQueries env (ctx_clientID ctx) msg ?s2")
  have c3: "clients s3 = clients ?s2"
    using ctl_patchQueries[of env "ctx_clientID ctx" msg ?s2] pq by (simp add: ctl_def)
  obtain r4 s4 where rl: "runInLockForClient ctx msg (patchQueries env) (Some ?nc) ?s0 = (r4, s4)"
    by (cases "runInLockForClient ctx msg (patchQueries env) (Some ?nc) ?s0")
  have "clients (snd (runInLockForClient ctx msg (patchQueries env) (Some ?nc) ?s0)) = clients s3"
    unfolding runInLockForClient_def Let_def using pq
    by (cases r) (simp_all add: clients_clearIdleTimeout emit_def)
  then have c4: "clients s4 = clients s3" unfolding rl by simp
  have "snd (initConnection env ctx msg s) = s4"
    unfolding initConnection_def Let_def rl by (cases r4) simp_all
  then show ?thesis using c4 c3 c2 by simp
qed

text \<open>
  C9. A \<^verbatim>\<open>changeDesiredQueries\<close> message for a client that has no registered handler, or
  whose registered handler has another \<open>wsID\<close> than the message, is dropped: the call
  returns without an error, makes no call on the store, the updaters, the pipeline or a
  handler, and leaves the CVR pointer, the store, the pipeline and the client map as they
  are. All it does is what every completed call does at its end: it clears the idle
  timeout.
\<close>

theorem changeDesiredQueries_stale_dropped:
  "(case map_of (clients s) (ctx_clientID ctx) of None \<Rightarrow> True | Some h \<Rightarrow> wsID h \<noteq> ctx_wsID ctx) \<longrightarrow>
     (let R = changeDesiredQueries env ctx msg s
      in fst R = None \<and> snd R = clearIdleTimeout s \<and>
         cvr (snd R) = cvr s \<and> cvrStore (snd R) = cvrStore s \<and> pipelines (snd R) = pipelines s \<and>
         clients (snd R) = clients s \<and> trace (snd R) = trace s)"
  by (auto simp: changeDesiredQueries_def runInLockForClient_def Let_def clearIdleTimeout_def
        split: option.splits)

theorem changeDesiredQueries_stale_dropped_witness:
  "map_option wsID (map_of (clients connectedService) (ctx_clientID STALE_CONTEXT)) = Some ''ws1'' \<and>
   ctx_wsID STALE_CONTEXT = ''ws0'' \<and>
   fst (changeDesiredQueries specEnv STALE_CONTEXT [PutOp ''query-hash2'' USERS_NAME_QUERY] connectedService) = None \<and>
   cvr (snd (changeDesiredQueries specEnv STALE_CONTEXT [PutOp ''query-hash2'' USERS_NAME_QUERY] connectedService)) =
     Some fooCVR \<and>
   trace (snd (changeDesiredQueries specEnv STALE_CONTEXT [PutOp ''query-hash2'' USERS_NAME_QUERY] connectedService)) = []"
proof -
  have h: "case map_of (clients connectedService) (ctx_clientID STALE_CONTEXT) of
             None \<Rightarrow> True | Some h \<Rightarrow> wsID h \<noteq> ctx_wsID STALE_CONTEXT" by code_simp
  have a: "map_option wsID (map_of (clients connectedService) (ctx_clientID STALE_CONTEXT)) = Some ''ws1''"
    by code_simp
  have b: "ctx_wsID STALE_CONTEXT = ''ws0''" by code_simp
  have c: "cvr connectedService = Some fooCVR" by code_simp
  have t: "trace connectedService = []" by code_simp
  note T = changeDesiredQueries_stale_dropped[where s=connectedService and ctx=STALE_CONTEXT and env=specEnv
      and msg="[PutOp ''query-hash2'' USERS_NAME_QUERY]", unfolded Let_def, rule_format, OF h]
  have r1: "fst (changeDesiredQueries specEnv STALE_CONTEXT [PutOp ''query-hash2'' USERS_NAME_QUERY] connectedService) = None"
    by (rule T[THEN conjunct1])
  have r2: "cvr (snd (changeDesiredQueries specEnv STALE_CONTEXT [PutOp ''query-hash2'' USERS_NAME_QUERY] connectedService)) =
              cvr connectedService"
    by (rule T[THEN conjunct2, THEN conjunct2, THEN conjunct1])
  have r3: "trace (snd (changeDesiredQueries specEnv STALE_CONTEXT [PutOp ''query-hash2'' USERS_NAME_QUERY] connectedService)) =
              trace connectedService"
    by (rule T[THEN conjunct2, THEN conjunct2, THEN conjunct2, THEN conjunct2, THEN conjunct2, THEN conjunct2])
  show ?thesis using a b r1 r2[unfolded c] r3[unfolded t] by (intro conjI)
qed

text \<open>
  C10. \<^verbatim>\<open>#deleteClient\<close> compares the departing handler with the registered one by
  identity. When the client map holds another handler object for the client ID, the
  service is left exactly as it was: the registered handler stays and no idle timer is
  armed. When it holds the departing handler itself, the entry is removed, the other
  entries stay, and the idle timer is armed with a new token exactly when the map has
  become empty. So the service changes only when the departing handler is the registered
  one. After \<^verbatim>\<open>initConnection\<close> for a client ID that already had a handler, the registered
  handler is the new object, and the cleanup of the old connection changes nothing.
\<close>

theorem deleteClient_identity:
  "(map_of (clients s) cid = Some c \<and> hid c \<noteq> hid client \<longrightarrow> deleteClient cid client s = s) \<and>
   (map_of (clients s) cid = Some c \<and> hid c = hid client \<longrightarrow>
      (let s' = deleteClient cid client s
       in map_of (clients s') = (map_of (clients s))(cid := None) \<and>
          (if clients s' = []
           then idleToken s' = Some (nextObj s) \<and> nextObj s \<in> set (timers s')
           else idleToken s' = idleToken s \<and> timers s' = timers s))) \<and>
   (deleteClient cid client s \<noteq> s \<longrightarrow> map_option hid (map_of (clients s) cid) = Some (hid client)) \<and>
   (map_of (clients s) (ctx_clientID ctx) = Some old \<and> hid old < nextObj s \<longrightarrow>
      (let s' = snd (initConnection env ctx msg s)
       in map_option hid (map_of (clients s') (ctx_clientID ctx)) = Some (nextObj s) \<and>
          deleteClient (ctx_clientID ctx) old s' = s'))"
proof (intro conjI impI)
  assume "map_of (clients s) cid = Some c \<and> hid c \<noteq> hid client"
  then show "deleteClient cid client s = s" by (simp add: deleteClient_def)
next
  assume a: "map_of (clients s) cid = Some c \<and> hid c = hid client"
  show "let s' = deleteClient cid client s
       in map_of (clients s') = (map_of (clients s))(cid := None) \<and>
          (if clients s' = []
           then idleToken s' = Some (nextObj s) \<and> nextObj s \<in> set (timers s')
           else idleToken s' = idleToken s \<and> timers s' = timers s)"
  proof -
    define s1 where "s1 = s\<lparr>clients := AList.delete cid (clients s)\<rparr>"
    have d: "deleteClient cid client s = (if clients s1 = [] then startIdleTimer s1 else s1)"
      using a by (simp add: deleteClient_def s1_def Let_def)
    have cl: "clients (deleteClient cid client s) = AList.delete cid (clients s)"
      unfolding d by (simp add: s1_def startIdleTimer_def Let_def)
    have m: "map_of (clients (deleteClient cid client s)) = (map_of (clients s))(cid := None)"
      unfolding cl by (rule delete_conv')
    have t: "if clients (deleteClient cid client s) = []
             then idleToken (deleteClient cid client s) = Some (nextObj s) \<and>
                  nextObj s \<in> set (timers (deleteClient cid client s))
             else idleToken (deleteClient cid client s) = idleToken s \<and>
                  timers (deleteClient cid client s) = timers s"
      unfolding cl unfolding d by (simp add: s1_def startIdleTimer_def Let_def)
    show ?thesis unfolding Let_def using m t by (intro conjI)
  qed
next
  assume "deleteClient cid client s \<noteq> s"
  then show "map_option hid (map_of (clients s) cid) = Some (hid client)"
    by (auto simp: deleteClient_def split: option.splits if_splits)
next
  assume a: "map_of (clients s) (ctx_clientID ctx) = Some old \<and> hid old < nextObj s"
  let ?s' = "snd (initConnection env ctx msg s)"
  have m: "map_of (clients ?s') (ctx_clientID ctx) =
             Some \<lparr>hid = nextObj s, h_clientID = ctx_clientID ctx, wsID = ctx_wsID ctx, baseCookie = ctx_baseCookie ctx\<rparr>"
    unfolding initConnection_clients by (simp add: update_conv')
  have d: "deleteClient (ctx_clientID ctx) old ?s' = ?s'"
    using a by (simp add: deleteClient_def m)
  show "let s' = ?s' in map_option hid (map_of (clients s') (ctx_clientID ctx)) = Some (nextObj s) \<and>
          deleteClient (ctx_clientID ctx) old s' = s'"
    unfolding Let_def using m d by simp
qed

theorem deleteClient_identity_witness:
  "map_of (clients connectedService) ''foo'' = Some fooHandler \<and>
   hid fooHandler < nextObj connectedService \<and>
   deleteClient ''foo'' fooHandler (snd (initConnection specEnv RECONNECT_CONTEXT [] connectedService)) =
     snd (initConnection specEnv RECONNECT_CONTEXT [] connectedService) \<and>
   map_option hid (map_of (clients (snd (initConnection specEnv RECONNECT_CONTEXT [] connectedService))) ''foo'') = Some 1 \<and>
   clients (deleteClient ''foo'' fooHandler connectedService) = [] \<and>
   idleToken (deleteClient ''foo'' fooHandler connectedService) = Some 1 \<and>
   deleteClient ''foo'' barHandler connectedService = connectedService"
proof -
  have c: "ctx_clientID RECONNECT_CONTEXT = ''foo''" by code_simp
  have h1: "map_of (clients connectedService) (ctx_clientID RECONNECT_CONTEXT) = Some fooHandler" by code_simp
  have h2: "hid fooHandler < nextObj connectedService" by code_simp
  have h3: "hid fooHandler \<noteq> hid barHandler" by code_simp
  have n: "nextObj connectedService = 1" by code_simp
  have e: "clients (deleteClient ''foo'' fooHandler connectedService) = []" by code_simp
  note T = deleteClient_identity[where s=connectedService and cid="ctx_clientID RECONNECT_CONTEXT"
      and ctx=RECONNECT_CONTEXT and old=fooHandler and c=fooHandler and env=specEnv and msg="[]", unfolded Let_def]
  note T4 = T[where client=fooHandler, THEN conjunct2, THEN conjunct2, THEN conjunct2, rule_format, OF conjI[OF h1 h2]]
  note T2 = T[where client=fooHandler, THEN conjunct2, THEN conjunct1, rule_format, OF conjI[OF h1 refl]]
  note T1 = T[where client=barHandler, THEN conjunct1, rule_format, OF conjI[OF h1 h3]]
  have i: "idleToken (deleteClient ''foo'' fooHandler connectedService) = Some 1"
    using T2[THEN conjunct2] e c n by simp
  show ?thesis using T4 T1 h1 h2 e i c n by simp
qed

section \<open>A patch with a bad query\<close>









section \<open>The order of the poke versions\<close>

lemma vle_refl: "vle a a"
  by (simp add: vle_def cmpVersions_refl)

lemma vle_trans: "vle a b \<Longrightarrow> vle b c \<Longrightarrow> vle a c"
  unfolding vle_def by (rule cmpVersions_trans)

lemma pokeVersions_append: "pokeVersions h (xs @ ys) = pokeVersions h xs @ pokeVersions h ys"
  by (induction xs rule: pokeVersions.induct) auto

lemma pokeVersions_mem: "v \<in> set (pokeVersions h evs) \<longleftrightarrow> StartPoke h v \<in> set evs"
  by (induction evs rule: pokeVersions.induct) auto

lemma pokedUpTo_iff:
  "pokedUpTo s \<longleftrightarrow> (\<exists>c. cvr s = Some c \<and> (\<forall>h v. StartPoke h v \<in> set (trace s) \<longrightarrow> vle v (cvr_version c)))"
proof (cases "cvr s")
  case None
  then show ?thesis by (simp add: pokedUpTo_def)
next
  case (Some c)
  have "list_all (\<lambda>ev. case ev of StartPoke h v \<Rightarrow> vle v (cvr_version c) | _ \<Rightarrow> True) evs \<longleftrightarrow>
        (\<forall>h v. StartPoke h v \<in> set evs \<longrightarrow> vle v (cvr_version c))" for evs
    by (induction evs) (auto split: event.splits)
  then show ?thesis using Some by (simp add: pokedUpTo_def)
qed

lemma sorted_same:
  "(\<forall>u \<in> set vs. u = v) \<Longrightarrow> sorted_wrt vle vs"
  by (induction vs) (auto simp: vle_refl)

lemma pokeInv_advances:
  assumes i: "pokeInv h s" and a: "advances s s'"
  shows "pokeInv h s'"
proof -
  from a obtain c c' evs v where c: "cvr s = Some c" and c': "cvr s' = Some c'"
    and t: "trace s' = trace s @ evs" and sv: "\<forall>h u. StartPoke h u \<in> set evs \<longrightarrow> u = v"
    and lo: "vle (cvr_version c) v" and hi: "vle v (cvr_version c')"
    unfolding advances_def by blast
  from i have old: "\<forall>h v. StartPoke h v \<in> set (trace s) \<longrightarrow> vle v (cvr_version c)"
    and so: "sorted_wrt vle (pokeVersions h (trace s))"
    using c unfolding pokeInv_def pokedUpTo_iff by auto
  have cc: "vle (cvr_version c) (cvr_version c')" using lo hi by (rule vle_trans)
  have p: "pokedUpTo s'"
    unfolding pokedUpTo_iff using c' t old sv hi cc by (auto intro: vle_trans)
  have sn: "sorted_wrt vle (pokeVersions h evs)"
    by (rule sorted_same[of _ v]) (use sv in \<open>auto simp: pokeVersions_mem\<close>)
  have cross: "\<forall>x \<in> set (pokeVersions h (trace s)). \<forall>y \<in> set (pokeVersions h evs). vle x y"
  proof (intro ballI)
    fix x y assume "x \<in> set (pokeVersions h (trace s))" "y \<in> set (pokeVersions h evs)"
    then have "vle x (cvr_version c)" "y = v" using old sv by (auto simp: pokeVersions_mem)
    then show "vle x y" using lo by (auto intro: vle_trans)
  qed
  have "sorted_wrt vle (pokeVersions h (trace s'))"
    unfolding t pokeVersions_append sorted_wrt_append using so sn cross by blast
  then show ?thesis using p by (simp add: pokeInv_def)
qed

lemma advances_quiet:
  fixes s s' :: "('p, 'st) service"
  assumes "cvr s = Some c" "cvr s' = cvr s" "trace s' = trace s @ evs" "\<And>h u. StartPoke h u \<notin> set evs"
  shows "advances s s'"
  unfolding advances_def using assms by (auto intro!: exI[of _ c] exI[of _ "cvr_version c"] simp: vle_refl)

lemma pokeInv_cvr: "pokeInv h s \<Longrightarrow> \<exists>c. cvr s = Some c"
  unfolding pokeInv_def pokedUpTo_iff by blast

lemma pokeInv_quiet:
  fixes s s' :: "('p, 'st) service"
  assumes "pokeInv h s" "cvr s' = cvr s" "trace s' = trace s @ evs" "\<And>h u. StartPoke h u \<notin> set evs"
  shows "pokeInv h s'"
proof -
  from pokeInv_cvr[OF assms(1)] obtain c where "cvr s = Some c" by blast
  then have "advances s s'" using assms(2-4) by (rule advances_quiet)
  then show ?thesis using assms(1) by (rule pokeInv_advances[rotated])
qed

lemma pokeInv_same:
  fixes s s' :: "('p, 'st) service"
  shows "pokeInv h s \<Longrightarrow> cvr s' = cvr s \<Longrightarrow> trace s' = trace s \<Longrightarrow> pokeInv h s'"
  by (rule pokeInv_quiet[where evs="[]"]) simp_all

lemma flushesAtLeast_D: "flushesAtLeast env v st \<Longrightarrow> fst (qu_flush env st) = Inr c' \<Longrightarrow> vle v (cvr_version c')"
  by (simp add: flushesAtLeast_def)

lemma advances_applyPatches:
  assumes laws: "updaterLaws env" and c: "cvr s = Some c" and ok: "fst (applyPatches env cid ps c s) = None"
  shows "advances s (snd (applyPatches env cid ps c s))"
proof -
  let ?R = "applyPatches env cid ps c s"
  from applyPatches_events[of env cid ps c s] ok
  obtain c' where t: "trace (snd ?R) = trace s @ [Flushed c']" and c': "cvr (snd ?R) = Some c'"
    and fl: "fst (cu_flush env (snd (patchLoop env cid ps [] (cu_new env c (cvrStore s))))) = Inr c'"
    by auto
  from laws have "case fst (cu_flush env (snd (patchLoop env cid ps [] (cu_new env c (cvrStore s))))) of
                    Inl e \<Rightarrow> True | Inr c' \<Rightarrow> vle (cvr_version c) (cvr_version c')"
    unfolding updaterLaws_def by blast
  then have le: "vle (cvr_version c) (cvr_version c')" using fl by simp
  show ?thesis unfolding advances_def
    using c c' t le by (auto intro!: exI[of _ c'] exI[of _ "cvr_version c"] simp: vle_refl)
qed

lemma advances_catchup:
  assumes c: "cvr s = Some c"
  shows "advances s (snd (catchupClients env c excl None s))"
proof -
  let ?R = "catchupClients env c excl None s"
  from catchup_standalone_shape[of env c excl s]
  obtain w where w: "list_all isWork w" and cv: "cvr (snd ?R) = cvr s"
    and t: "trace (snd ?R) = trace s @ startEvents (cvr_version c) (handlerIds s) @ w @
              (case fst ?R of None \<Rightarrow> map EndPoke (handlerIds s) | Some e \<Rightarrow> [])"
    by blast
  have sv: "\<forall>h u. StartPoke h u \<in> set (startEvents (cvr_version c) (handlerIds s) @ w @
              (case fst ?R of None \<Rightarrow> map EndPoke (handlerIds s) | Some e \<Rightarrow> [])) \<longrightarrow> u = cvr_version c"
    using work_notin(4)[OF w] by (auto simp: startEvents_def split: option.splits)
  show ?thesis unfolding advances_def
    using c cv t sv by (auto intro!: exI[of _ c] exI[of _ "cvr_version c"] simp: vle_refl)
qed

lemma advances_addAndRemoveQueries:
  assumes laws: "updaterLaws env" and c: "cvr s = Some c"
    and ok: "fst (addAndRemoveQueries env c add rem s) = None"
  shows "advances s (snd (addAndRemoveQueries env c add rem s))"
proof -
  let ?R = "addAndRemoveQueries env c add rem s"
  let ?tq = "qu_trackQueries env (map (\<lambda>h. (h, h)) add) rem (qu_new env c (pl_currentVersion env (pipelines s)) (cvrStore s))"
  let ?nv = "fst (fst ?tq)"
  have ne: "add \<noteq> [] \<or> rem \<noteq> []"
    using ok by (auto simp: addAndRemoveQueries_def split: if_splits)
  from addAndRemoveQueries_shape[OF ne, of env c s] ok
  obtain w1 w2 w3 c' st where w: "list_all isWork w1" "list_all isWork w2" "list_all isWork w3"
    and fl: "fst (qu_flush env st) = Inr c'"
    and cl: "\<forall>P. updaterClosed env P \<longrightarrow> P (snd ?tq) \<longrightarrow> P st"
    and c': "cvr (snd ?R) = Some c'"
    and t: "trace (snd ?R) = trace s @ TrackQueries (map (\<lambda>h. (h, h)) add) rem #
              startEvents ?nv (handlerIds s) @ w1 @ DeleteUnreferencedRows # w2 @ Flushed c' # w3 @
              map EndPoke (handlerIds s)"
    by auto
  from laws have l2: "vle (cvr_version c) ?nv" "flushesAtLeast env ?nv (snd ?tq)"
    and l4: "updaterClosed env (flushesAtLeast env ?nv)"
    unfolding updaterLaws_def by blast+
  have "flushesAtLeast env ?nv st" using cl l4 l2(2) by blast
  then have hi: "vle ?nv (cvr_version c')" using fl by (rule flushesAtLeast_D)
  have sv: "\<forall>h u. StartPoke h u \<in> set (TrackQueries (map (\<lambda>h. (h, h)) add) rem #
              startEvents ?nv (handlerIds s) @ w1 @ DeleteUnreferencedRows # w2 @ Flushed c' # w3 @
              map EndPoke (handlerIds s)) \<longrightarrow> u = ?nv"
    using work_notin(4)[OF w(1)] work_notin(4)[OF w(2)] work_notin(4)[OF w(3)]
    by (auto simp: startEvents_def)
  show ?thesis unfolding advances_def
    using c c' t sv l2(1) hi by blast
qed

lemma advances_advancePipelines:
  assumes laws: "updaterLaws env" and c: "cvr s = Some c"
    and ok: "fst (advancePipelines env s) = None"
  shows "advances s (snd (advancePipelines env s))"
proof -
  let ?R = "advancePipelines env s"
  have ini: "pl_initialized env (pipelines s)"
    using ok c by (auto simp: advancePipelines_def split: if_splits)
  from advancePipelines_shape[OF c ini] ok
  obtain nv w1 c' st where w: "list_all isWork w1"
    and t: "trace (snd ?R) = trace s @ Advance #
              startEvents (qu_updatedVersion env (qu_new env c nv (cvrStore s))) (handlerIds s) @ w1 @
              Flushed c' # map EndPoke (handlerIds s)"
    and c': "cvr (snd ?R) = Some c'" and fl: "fst (qu_flush env st) = Inr c'"
    and cl: "\<forall>P. updaterClosed env P \<longrightarrow> P (qu_new env c nv (cvrStore s)) \<longrightarrow> P st"
    by auto
  let ?v = "qu_updatedVersion env (qu_new env c nv (cvrStore s))"
  from laws have l3: "vle (cvr_version c) ?v" "flushesAtLeast env ?v (qu_new env c nv (cvrStore s))"
    and l4: "updaterClosed env (flushesAtLeast env ?v)"
    unfolding updaterLaws_def by blast+
  have "flushesAtLeast env ?v st" using cl l4 l3(2) by blast
  then have hi: "vle ?v (cvr_version c')" using fl by (rule flushesAtLeast_D)
  have sv: "\<forall>h u. StartPoke h u \<in> set (Advance # startEvents ?v (handlerIds s) @ w1 @
              Flushed c' # map EndPoke (handlerIds s)) \<longrightarrow> u = ?v"
    using work_notin(4)[OF w] by (auto simp: startEvents_def)
  show ?thesis unfolding advances_def
    using c c' t sv l3(1) hi by blast
qed

lemma pokeInv_syncQueryPipelineSet:
  assumes laws: "updaterLaws env" and i: "pokeInv h s" and ok: "fst (syncQueryPipelineSet env s) = None"
  shows "pokeInv h (snd (syncQueryPipelineSet env s))"
proof -
  from pokeInv_cvr[OF i] obtain c where c: "cvr s = Some c" by blast
  have ini: "pl_initialized env (pipelines s)"
    using ok c by (auto simp: syncQueryPipelineSet_def split: if_splits)
  let ?add = "difference (desiredClientQueries c) (pl_addedQueries env (pipelines s))"
  let ?rem = "difference (allClientQueries c) (desiredClientQueries c)"
  let ?A = "if length ?add > 0 \<or> length ?rem > 0
            then addAndRemoveQueries env c ?add ?rem s else catchupClients env c [] None s"
  have eq: "syncQueryPipelineSet env s =
              (case ?A of (Some e, s') \<Rightarrow> (Some e, s') | (None, s') \<Rightarrow> (assertSynced env s', s'))"
    using c ini by (simp add: syncQueryPipelineSet_def Let_def)
  have okA: "fst ?A = None" using ok unfolding eq by (cases ?A) (auto split: option.splits)
  have sn: "snd (syncQueryPipelineSet env s) = snd ?A"
    unfolding eq by (cases ?A) (auto split: option.splits)
  have "advances s (snd ?A)"
  proof (cases "length ?add > 0 \<or> length ?rem > 0")
    case True
    then have "?A = addAndRemoveQueries env c ?add ?rem s" by simp
    then show ?thesis using advances_addAndRemoveQueries[OF laws c, of ?add ?rem] okA by simp
  next
    case False
    then have "?A = catchupClients env c [] None s" by simp
    then show ?thesis using advances_catchup[OF c, of env "[]"] by simp
  qed
  then show ?thesis unfolding sn using i by (rule pokeInv_advances[rotated])
qed

lemma pokeInv_hydrateUnchangedQueries:
  assumes i: "pokeInv h s"
  shows "pokeInv h (snd (hydrateUnchangedQueries env s))"
proof -
  have hl: "pokeInv h (snd (hydrateLoop env gs s))" for gs
  proof -
    from hydrateLoop_events[of env gs s] obtain n where
      t: "trace (snd (hydrateLoop env gs s)) =
            trace s @ take n (map addQueryEvent (filter (\<lambda>(h, q). isDesired q \<and> transformationHash q = Some h) gs))"
      and cv: "cvr (snd (hydrateLoop env gs s)) = cvr s"
      by blast
    have "StartPoke h' u \<notin> set (take n (map addQueryEvent xs))" for h' u xs
      by (auto simp: addQueryEvent_def dest!: in_set_takeD)
    then show ?thesis using i cv t by (rule pokeInv_quiet[rotated 3])
  qed
  show ?thesis
    using i hl by (auto simp: hydrateUnchangedQueries_def split: option.splits)
qed

lemma pokeInv_patchQueries:
  assumes laws: "updaterLaws env" and i: "pokeInv h s" and ok: "fst (patchQueries env cid ps s) = None"
  shows "pokeInv h (snd (patchQueries env cid ps s))"
proof -
  from pokeInv_cvr[OF i] obtain c where c: "cvr s = Some c" by blast
  let ?A = "if length ps > 0 then applyPatches env cid ps c s else (None, s)"
  let ?next = "\<lambda>s1. if pl_initialized env (pipelines s1) then syncQueryPipelineSet env s1 else (None, s1)"
  have eq: "patchQueries env cid ps s = (case ?A of (Some e, s1) \<Rightarrow> (Some e, s1) | (None, s1) \<Rightarrow> ?next s1)"
    using c by (simp add: patchQueries_def)
  have okA: "fst ?A = None" using ok unfolding eq by (cases ?A) (auto split: option.splits)
  then have eq2: "patchQueries env cid ps s = ?next (snd ?A)"
    unfolding eq by (cases ?A) auto
  have iA: "pokeInv h (snd ?A)"
  proof (cases "length ps > 0")
    case True
    then have a: "?A = applyPatches env cid ps c s" by simp
    have "advances s (snd (applyPatches env cid ps c s))"
      using advances_applyPatches[OF laws c] okA a by simp
    then show ?thesis using a i by (simp add: pokeInv_advances)
  next
    case False
    then show ?thesis using i by simp
  qed
  show ?thesis
  proof (cases "pl_initialized env (pipelines (snd ?A))")
    case True
    then have e3: "patchQueries env cid ps s = syncQueryPipelineSet env (snd ?A)" unfolding eq2 by simp
    show ?thesis unfolding e3
      by (rule pokeInv_syncQueryPipelineSet[OF laws iA]) (use ok e3 in simp)
  next
    case False
    then have e3: "patchQueries env cid ps s = (None, snd ?A)" unfolding eq2 by simp
    show ?thesis unfolding e3 using iA by simp
  qed
qed

lemma pokeInv_clearIdleTimeout: "pokeInv h s \<Longrightarrow> pokeInv h (clearIdleTimeout s)"
proof -
  have "cvr (clearIdleTimeout s) = cvr s" "trace (clearIdleTimeout s) = trace s"
    by (simp_all add: clearIdleTimeout_def split: option.splits)
  then show "pokeInv h s \<Longrightarrow> pokeInv h (clearIdleTimeout s)" by (rule pokeInv_same[rotated])
qed

lemma pokeInv_runInLock:
  assumes fn: "\<And>s0. pokeInv h s0 \<Longrightarrow> fst (fn (ctx_clientID ctx) body s0) = None
                 \<Longrightarrow> pokeInv h (snd (fn (ctx_clientID ctx) body s0))"
    and i: "pokeInv h s" and ok: "fst (runInLockForClient ctx body fn nc s) = None"
  shows "pokeInv h (snd (runInLockForClient ctx body fn nc s))"
proof -
  have fin: "pokeInv h s0 \<Longrightarrow>
             fst (case fn (ctx_clientID ctx) body s0 of
                    (Some e, s') \<Rightarrow> (Some e, case cl of None \<Rightarrow> s' | Some x \<Rightarrow> emit [FailClient (hid x) e] s')
                  | (None, s') \<Rightarrow> (None, clearIdleTimeout s')) = None \<Longrightarrow>
             pokeInv h (snd (case fn (ctx_clientID ctx) body s0 of
                    (Some e, s') \<Rightarrow> (Some e, case cl of None \<Rightarrow> s' | Some x \<Rightarrow> emit [FailClient (hid x) e] s')
                  | (None, s') \<Rightarrow> (None, clearIdleTimeout s')))"
    for s0 and cl :: "ClientHandler option"
  proof -
    assume i0: "pokeInv h s0"
      and ok0: "fst (case fn (ctx_clientID ctx) body s0 of
                    (Some e, s') \<Rightarrow> (Some e, case cl of None \<Rightarrow> s' | Some x \<Rightarrow> emit [FailClient (hid x) e] s')
                  | (None, s') \<Rightarrow> (None, clearIdleTimeout s')) = None"
    obtain r s3 where f: "fn (ctx_clientID ctx) body s0 = (r, s3)" by (cases "fn (ctx_clientID ctx) body s0")
    have r: "r = None" using ok0 unfolding f by (cases r) auto
    have "pokeInv h s3" using fn[OF i0] f r by simp
    then show ?thesis unfolding f r by (simp add: pokeInv_clearIdleTimeout)
  qed
  show ?thesis
  proof (cases nc)
    case None
    show ?thesis
    proof (cases "map_option wsID (map_of (clients s) (ctx_clientID ctx)) \<noteq> Some (ctx_wsID ctx)")
      case True
      then have "runInLockForClient ctx body fn nc s = (None, clearIdleTimeout s)"
        using None by (simp add: runInLockForClient_def Let_def)
      then show ?thesis using i by (simp add: pokeInv_clearIdleTimeout)
    next
      case False
      then have m: "(map_option wsID (map_of (clients s) (ctx_clientID ctx)) \<noteq> Some (ctx_wsID ctx)) = False"
        by blast
      have eq: "runInLockForClient ctx body fn nc s =
                 (case fn (ctx_clientID ctx) body s of
                    (Some e, s') \<Rightarrow> (Some e, case map_of (clients s) (ctx_clientID ctx) of None \<Rightarrow> s'
                                               | Some x \<Rightarrow> emit [FailClient (hid x) e] s')
                  | (None, s') \<Rightarrow> (None, clearIdleTimeout s'))"
        by (simp only: runInLockForClient_def Let_def None option.case m if_False prod.case)
      show ?thesis unfolding eq by (rule fin[OF i]) (use ok eq in simp)
    qed
  next
    case (Some n)
    have ws: "wsID n = ctx_wsID ctx"
      using ok Some by (auto simp: runInLockForClient_def Let_def split: if_splits)
    define s1 where "s1 = (case map_of (clients s) (ctx_clientID ctx) of
                             None \<Rightarrow> s | Some old \<Rightarrow> emit [CloseClient (hid old)] s)"
    define s2 where "s2 = s1\<lparr>clients := AList.update (ctx_clientID ctx) n (clients s1)\<rparr>"
    have i1: "pokeInv h s1"
    proof (cases "map_of (clients s) (ctx_clientID ctx)")
      case None
      then show ?thesis using i by (simp add: s1_def)
    next
      case (Some old)
      then have "s1 = emit [CloseClient (hid old)] s" by (simp add: s1_def)
      then show ?thesis using i by (auto intro: pokeInv_quiet[where evs="[CloseClient (hid old)]"] simp: emit_def)
    qed
    have i2: "pokeInv h s2" using i1 by (rule pokeInv_same) (simp_all add: s2_def)
    have eq: "runInLockForClient ctx body fn nc s =
                 (case fn (ctx_clientID ctx) body s2 of
                    (Some e, s') \<Rightarrow> (Some e, case Some n of None \<Rightarrow> s' | Some x \<Rightarrow> emit [FailClient (hid x) e] s')
                  | (None, s') \<Rightarrow> (None, clearIdleTimeout s'))"
      using Some ws unfolding runInLockForClient_def Let_def s2_def s1_def by simp
    show ?thesis unfolding eq by (rule fin[OF i2]) (use ok eq in simp)
  qed
qed

lemma pokeInv_step:
  assumes laws: "updaterLaws env" and i: "pokeInv h s" and ok: "fst (step env r s) = None"
  shows "pokeInv h (snd (step env r s))"
proof (cases r)
  case VersionReady
  show ?thesis
  proof (cases "pl_initialized env (pipelines s)")
    case True
    then have eq: "step env r s = advancePipelines env s" using VersionReady by (simp add: step_def onVersionReady_def)
    from pokeInv_cvr[OF i] obtain c where c: "cvr s = Some c" by blast
    have "advances s (snd (advancePipelines env s))"
      by (rule advances_advancePipelines[OF laws c]) (use ok eq in simp)
    then show ?thesis unfolding eq using i by (simp add: pokeInv_advances)
  next
    case False
    let ?s0 = "emit [PipelineInit] (s\<lparr>pipelines := pl_init env (pipelines s)\<rparr>)"
    let ?H = "hydrateUnchangedQueries env ?s0"
    have eq: "step env r s = (case ?H of (Some e, s1) \<Rightarrow> (Some e, s1) | (None, s1) \<Rightarrow> syncQueryPipelineSet env s1)"
      using False VersionReady by (simp add: step_def onVersionReady_def)
    have okH: "fst ?H = None" using ok unfolding eq by (cases ?H) (auto split: option.splits)
    then have eq2: "step env r s = syncQueryPipelineSet env (snd ?H)" unfolding eq by (cases ?H) auto
    have i0: "pokeInv h ?s0"
      using i by (auto intro: pokeInv_quiet[where evs="[PipelineInit]"] simp: emit_def)
    have iH: "pokeInv h (snd ?H)" using i0 by (rule pokeInv_hydrateUnchangedQueries)
    show ?thesis unfolding eq2
      by (rule pokeInv_syncQueryPipelineSet[OF laws iH]) (use ok eq2 in simp)
  qed
next
  case (InitConnection ctx msg)
  let ?nc = "\<lparr>hid = nextObj s, h_clientID = ctx_clientID ctx, wsID = ctx_wsID ctx, baseCookie = ctx_baseCookie ctx\<rparr>"
  let ?s0 = "s\<lparr>nextObj := Suc (nextObj s)\<rparr>"
  let ?L = "runInLockForClient ctx msg (patchQueries env) (Some ?nc) ?s0"
  have i0: "pokeInv h ?s0" using i by (rule pokeInv_same) simp_all
  have st: "fst (step env r s) = fst ?L" "snd (step env r s) = snd ?L"
    using InitConnection by (cases ?L; cases "fst ?L"; simp add: step_def initConnection_def Let_def)+
  have "pokeInv h (snd ?L)"
    by (rule pokeInv_runInLock[OF _ i0]) (use ok st laws in \<open>auto intro: pokeInv_patchQueries\<close>)
  then show ?thesis using st by simp
next
  case (ChangeDesiredQueries ctx msg)
  then have eq: "step env r s = runInLockForClient ctx msg (patchQueries env) None s"
    by (simp add: step_def changeDesiredQueries_def)
  show ?thesis unfolding eq
    by (rule pokeInv_runInLock[OF _ i]) (use ok eq laws in \<open>auto intro: pokeInv_patchQueries\<close>)
next
  case (ConnectionClosed cid cl)
  then have eq: "step env r s = (None, deleteClient cid cl s)" by (simp add: step_def)
  show ?thesis unfolding eq using i
    by (auto intro!: pokeInv_same[of h s] simp: deleteClient_def startIdleTimer_def Let_def split: option.splits)
next
  case Keepalive
  then have eq: "step env r s = (None, snd (keepalive s))" by (simp add: step_def)
  show ?thesis unfolding eq using i
    by (auto intro!: pokeInv_same[of h s] simp: keepalive_def startIdleTimer_def Let_def split: option.splits)
next
  case (TimerFired t)
  then have eq: "step env r s = (None, idleTimeout t s)" by (simp add: step_def)
  have "pokeInv h (idleTimeout t s)"
  proof (cases "t \<in> set (timers s) \<and> idleToken s = Some t")
    case True
    then have "idleTimeout t s =
                 emit [CancelVersionChanges] (s\<lparr>timers := removeAll t (timers s), versionChangesActive := False\<rparr>)"
      by (simp add: idleTimeout_def Let_def)
    then show ?thesis using i
      by (auto intro: pokeInv_quiet[where evs="[CancelVersionChanges]"] simp: emit_def)
  next
    case False
    then show ?thesis using i
      by (auto intro!: pokeInv_same[of h s] simp: idleTimeout_def Let_def)
  qed
  then show ?thesis unfolding eq by simp
qed

lemma pokeInv_exec:
  "updaterLaws env \<Longrightarrow> pokeInv h s \<Longrightarrow> fst (exec env rs s) = None \<Longrightarrow> pokeInv h (snd (exec env rs s))"
proof (induction rs arbitrary: s)
  case Nil
  then show ?case by simp
next
  case (Cons r rs)
  obtain e s' where st: "step env r s = (e, s')" by (cases "step env r s")
  have e: "e = None" using Cons.prems(3) st by (cases e) auto
  have i': "pokeInv h s'" using pokeInv_step[OF Cons.prems(1,2), of r] st e by simp
  have ex: "exec env (r # rs) s = exec env rs s'" using st e by simp
  show ?case unfolding ex by (rule Cons.IH[OF Cons.prems(1) i']) (use Cons.prems(3) ex in simp)
qed

lemma staged_version_put: "cvr_version (st_staged (snd (sp_putDesiredQueries cid h a st))) = cvr_version (st_staged st)"
  by (simp add: sp_putDesiredQueries_def Let_def)

lemma staged_version_delete: "cvr_version (st_staged (sp_deleteDesiredQueries cid h st)) = cvr_version (st_staged st)"
  by (simp add: sp_deleteDesiredQueries_def Let_def)

lemma staged_reachable_put: "st_reachable (snd (sp_putDesiredQueries cid h a st)) = st_reachable st"
  by (simp add: sp_putDesiredQueries_def Let_def)

lemma staged_reachable_delete: "st_reachable (sp_deleteDesiredQueries cid h st) = st_reachable st"
  by (simp add: sp_deleteDesiredQueries_def Let_def)

lemma staged_version_clear: "cvr_version (st_staged (sp_clearDesiredQueries cid st)) = cvr_version (st_staged st)"
proof -
  have "cvr_version (st_staged (foldl (\<lambda>st' h. sp_deleteDesiredQueries cid h st') st hs)) = cvr_version (st_staged st)" for hs
    by (induction hs arbitrary: st) (simp_all add: staged_version_delete)
  then show ?thesis by (simp add: sp_clearDesiredQueries_def split: option.splits)
qed

lemma staged_version_patchLoop:
  "cvr_version (st_staged (snd (patchLoop specEnv cid ps added st))) = cvr_version (st_staged st)"
proof (induction specEnv cid ps added st rule: patchLoop.induct)
  case (1 cid added st)
  show ?case by simp
next
  case (2 cid h a ps added st)
  obtain new st' where p: "cu_putDesiredQueries specEnv cid h a st = (new, st')"
    by (cases "cu_putDesiredQueries specEnv cid h a st")
  then have "st' = snd (sp_putDesiredQueries cid h a st)" by (simp add: specEnv_def)
  then have v: "cvr_version (st_staged st') = cvr_version (st_staged st)" by (simp add: staged_version_put)
  have "patchLoop specEnv cid (PutOp h a # ps) added st = patchLoop specEnv cid ps (added @ new) st'"
    using p by simp
  then show ?case using 2[OF p[symmetric] refl] v by simp
next
  case (3 cid h ps added st)
  have "cvr_version (st_staged (cu_deleteDesiredQueries specEnv cid h st)) = cvr_version (st_staged st)"
    by (simp add: specEnv_def staged_version_delete)
  then show ?case using 3 by simp
next
  case (4 cid ps added st)
  have "cvr_version (st_staged (cu_clearDesiredQueries specEnv cid st)) = cvr_version (st_staged st)"
    by (simp add: specEnv_def staged_version_clear)
  then show ?case using 4 by simp
qed

lemma vle_bumpMinor: "vle v (bumpMinor v)"
  by (simp add: vle_def cmpVersions_le_iff bumpMinor_def)

lemma vle_qu_new: "vle (cvr_version c) (cvr_version (st_staged (sp_qu_new c sv st)))"
  by (simp add: vle_def cmpVersions_le_iff sp_qu_new_def)

lemma flushesAtLeast_specEnv:
  "flushesAtLeast specEnv v st \<longleftrightarrow> (st_reachable st \<longrightarrow> vle v (cvr_version (st_staged st)))"
  by (simp add: flushesAtLeast_def specEnv_def sp_flush_def)

lemma updaterLaws_specEnv: "updaterLaws specEnv"
proof -
  have l1: "case fst (cu_flush specEnv (snd (patchLoop specEnv cid ps [] (cu_new specEnv c st)))) of
              Inl e \<Rightarrow> True | Inr c' \<Rightarrow> vle (cvr_version c) (cvr_version c')" for c st cid ps
  proof -
    have "cvr_version (st_staged (snd (patchLoop specEnv cid ps [] (sp_cu_new c st)))) = bumpMinor (cvr_version c)"
      unfolding staged_version_patchLoop by (simp add: sp_cu_new_def)
    then show ?thesis
      by (simp add: specEnv_def[of] sp_flush_def vle_bumpMinor split: sum.splits)
  qed
  have l2: "vle (cvr_version c) (fst (fst (qu_trackQueries specEnv adds rems (qu_new specEnv c sv st)))) \<and>
            flushesAtLeast specEnv (fst (fst (qu_trackQueries specEnv adds rems (qu_new specEnv c sv st))))
              (snd (qu_trackQueries specEnv adds rems (qu_new specEnv c sv st)))" for c sv st adds rems
  proof -
    have a: "fst (fst (sp_trackQueries adds rems (sp_qu_new c sv st))) =
               bumpMinor (cvr_version (st_staged (sp_qu_new c sv st)))"
      by (simp add: sp_trackQueries_def Let_def)
    have b: "cvr_version (st_staged (snd (sp_trackQueries adds rems (sp_qu_new c sv st)))) =
               bumpMinor (cvr_version (st_staged (sp_qu_new c sv st)))"
      by (simp add: sp_trackQueries_def Let_def)
    have "vle (cvr_version c) (bumpMinor (cvr_version (st_staged (sp_qu_new c sv st))))"
      by (rule vle_trans[OF vle_qu_new vle_bumpMinor])
    then show ?thesis
      unfolding flushesAtLeast_specEnv by (simp add: specEnv_def a b vle_refl)
  qed
  have l3: "vle (cvr_version c) (qu_updatedVersion specEnv (qu_new specEnv c sv st)) \<and>
            flushesAtLeast specEnv (qu_updatedVersion specEnv (qu_new specEnv c sv st)) (qu_new specEnv c sv st)"
    for c sv st
    unfolding flushesAtLeast_specEnv
    by (simp add: specEnv_def sp_updatedVersion_def vle_qu_new vle_refl)
  have l4: "updaterClosed specEnv (flushesAtLeast specEnv v)" for v
    unfolding updaterClosed_def flushesAtLeast_specEnv
    by (simp add: specEnv_def sp_received_def sp_deleteUnreferencedRows_def Let_def)
  show ?thesis unfolding updaterLaws_def using l1 l2 l3 l4 by blast
qed

text \<open>
  C1, as the code has it. The versions the service passes to \<^verbatim>\<open>startPoke\<close> on one client
  handler never go down, and they can repeat. Take updaters that obey \<open>updaterLaws\<close>, and a
  service whose pokes so far are in non-decreasing order and at most at the version of
  its CVR (a service that has not poked yet is one). Then over every run of requests
  (version-ready signals, \<^verbatim>\<open>initConnection\<close>, \<^verbatim>\<open>changeDesiredQueries\<close>, closed
  connections, keepalives, idle timeouts) in which no request fails, the versions of the
  pokes started on any handler are in non-decreasing order of \<^verbatim>\<open>cmpVersions\<close>, and none
  is later than the version of the CVR the service ends with.
\<close>

theorem poke_versions_nondecreasing:
  "updaterLaws env \<and> pokedUpTo s \<and> sorted_wrt vle (pokeVersions h (trace s)) \<and>
   fst (exec env rs s) = None \<longrightarrow>
     sorted_wrt vle (pokeVersions h (trace (snd (exec env rs s)))) \<and> pokedUpTo (snd (exec env rs s))"
proof (intro impI, elim conjE)
  assume laws: "updaterLaws env" and p: "pokedUpTo s" and so: "sorted_wrt vle (pokeVersions h (trace s))"
    and ok: "fst (exec env rs s) = None"
  have "pokeInv h s" using p so by (simp add: pokeInv_def)
  then have "pokeInv h (snd (exec env rs s))" using laws ok by (simp add: pokeInv_exec)
  then show "sorted_wrt vle (pokeVersions h (trace (snd (exec env rs s)))) \<and> pokedUpTo (snd (exec env rs s))"
    by (simp add: pokeInv_def)
qed

theorem poke_versions_nondecreasing_witness:
  "pokedUpTo advancedService \<and> pokeVersions 0 (trace advancedService) = [] \<and>
   fst (exec specEnv [VersionReady, InitConnection BAR_CONTEXT []] advancedService) = None \<and>
   sorted_wrt vle (pokeVersions 0 (trace (snd (exec specEnv [VersionReady, InitConnection BAR_CONTEXT []] advancedService)))) \<and>
   pokedUpTo (snd (exec specEnv [VersionReady, InitConnection BAR_CONTEXT []] advancedService)) \<and>
   length (pokeVersions 0 (trace (snd (exec specEnv [VersionReady, InitConnection BAR_CONTEXT []] advancedService)))) = 2"
proof -
  have h1: "pokedUpTo advancedService" by code_simp
  have h2: "pokeVersions 0 (trace advancedService) = []" by code_simp
  have h3: "sorted_wrt vle (pokeVersions 0 (trace advancedService))" unfolding h2 by simp
  have h4: "fst (exec specEnv [VersionReady, InitConnection BAR_CONTEXT []] advancedService) = None" by code_simp
  have n: "length (pokeVersions 0 (trace (snd (exec specEnv [VersionReady, InitConnection BAR_CONTEXT []] advancedService)))) = 2"
    by code_simp
  note T = poke_versions_nondecreasing[where env=specEnv and s=advancedService and h=0
      and rs="[VersionReady, InitConnection BAR_CONTEXT []]", rule_format,
      OF conjI[OF updaterLaws_specEnv conjI[OF h1 conjI[OF h3 h4]]]]
  show ?thesis using h1 h2 h4 T[THEN conjunct1] T[THEN conjunct2] n by (intro conjI)
qed

text \<open>The statement of the specification fails where a client connects between two replica versions.
  The replica moves to \<open>1y0\<close> and \<open>foo\<close> is poked with the new version of the CVR; then
  \<open>bar\<close> connects with no query of its own, \<^verbatim>\<open>#catchupClients\<close> starts a poke at
  \<open>cvr.version\<close> on every client, and \<open>foo\<close> is poked with the same version again.\<close>

theorem poke_versions_counterexample:
  "fst (exec specEnv [VersionReady, InitConnection BAR_CONTEXT []] advancedService) = None \<and>
   pokeVersions (hid fooHandler)
     (trace (snd (exec specEnv [VersionReady, InitConnection BAR_CONTEXT []] advancedService))) =
     [\<lparr>stateVersion = ''1y0'', minorVersion = 2\<rparr>, \<lparr>stateVersion = ''1y0'', minorVersion = 2\<rparr>] \<and>
   \<not> cmpVersions \<lparr>stateVersion = ''1y0'', minorVersion = 2\<rparr> \<lparr>stateVersion = ''1y0'', minorVersion = 2\<rparr> < 0"
  by code_simp

end
